theory Spec2Isabelle
  imports Main
begin

section \<open>Data model of the knight-moves puzzle solver\<close>

text \<open>
  The program is one Python class, \<^verbatim>\<open>PuzzleSolver\<close>, with four instance fields set by
  its constructor and read by every method: the numeric target, the 6 by 6 table of cell
  labels, the precomputed table of knight moves and the score cache. The class is a
  record; a method takes the record and, where it writes a field, returns the record
  updated. Python integers are unbounded, so they are \<^typ>\<open>int\<close>. A position is a
  Python pair of integers, a path a Python list of positions.
\<close>

type_synonym pos = "int \<times> int"

type_synonym path = "pos list"

text \<open>The dictionary \<^verbatim>\<open>values\<close>: from a cell label to its weight.\<close>

type_synonym weights = "string \<rightharpoonup> int"

text \<open>The exceptions the methods can raise.\<close>

datatype error = IndexError | KeyError | ValueError

record PuzzleSolver =
  target :: int
  grid_values :: "string list list"
  knight_moves :: "pos \<rightharpoonup> pos list"
  score_cache :: "path \<rightharpoonup> int"

text \<open>
  Python list indexing \<^verbatim>\<open>xs[i]\<close>: a negative index counts from the end, and an index
  outside \<open>[-len, len)\<close> raises \<^verbatim>\<open>IndexError\<close>.
\<close>

definition py_index :: "'a list \<Rightarrow> int \<Rightarrow> error + 'a" where
  "py_index xs i =
     (let n = int (length xs) in
      if 0 \<le> i \<and> i < n then Inr (xs ! nat i)
      else if - n \<le> i \<and> i < 0 then Inr (xs ! nat (n + i))
      else Inl IndexError)"

text \<open>The expression \<^verbatim>\<open>self.grid_values[p[0]][p[1]]\<close>.\<close>

definition cell :: "PuzzleSolver \<Rightarrow> pos \<Rightarrow> error + string" where
  "cell self p =
     (case py_index (grid_values self) (fst p) of
        Inl e \<Rightarrow> Inl e
      | Inr row \<Rightarrow> py_index row (snd p))"

subsection \<open>The knight-move table\<close>

definition knight_deltas :: "(int \<times> int) list" where
  "knight_deltas = [(2, 1), (2, -1), (-2, 1), (-2, -1), (1, 2), (1, -2), (-1, 2), (-1, -2)]"

text \<open>The innermost loop of \<^verbatim>\<open>_precompute_knight_moves\<close>: the list \<^verbatim>\<open>valid\<close> for one cell.\<close>

fun valid_from :: "int \<Rightarrow> int \<Rightarrow> (int \<times> int) list \<Rightarrow> pos list" where
  "valid_from i j [] = []"
| "valid_from i j ((dx, dy) # ds) =
     (let new_x = i + dx; new_y = j + dy in
      if 0 \<le> new_x \<and> new_x < 6 \<and> 0 \<le> new_y \<and> new_y < 6
      then (new_x, new_y) # valid_from i j ds
      else valid_from i j ds)"

text \<open>The loop over \<^verbatim>\<open>j\<close>, then the loop over \<^verbatim>\<open>i\<close>, each storing into the dictionary.\<close>

fun moves_row :: "int \<Rightarrow> int list \<Rightarrow> (pos \<rightharpoonup> pos list) \<Rightarrow> (pos \<rightharpoonup> pos list)" where
  "moves_row i [] moves = moves"
| "moves_row i (j # js) moves = moves_row i js (moves((i, j) \<mapsto> valid_from i j knight_deltas))"

fun moves_rows :: "int list \<Rightarrow> (pos \<rightharpoonup> pos list) \<Rightarrow> (pos \<rightharpoonup> pos list)" where
  "moves_rows [] moves = moves"
| "moves_rows (i # is) moves = moves_rows is (moves_row i [0..5] moves)"

definition precompute_knight_moves :: "pos \<rightharpoonup> pos list" where
  "precompute_knight_moves = moves_rows [0..5] Map.empty"

text \<open>The constructor \<^verbatim>\<open>__init__\<close>.\<close>

definition init :: PuzzleSolver where
  "init =
     \<lparr> target = 2024,
       grid_values =
         [[''A'', ''B'', ''B'', ''C'', ''C'', ''C''],
          [''A'', ''B'', ''B'', ''C'', ''C'', ''C''],
          [''A'', ''A'', ''B'', ''B'', ''C'', ''C''],
          [''A'', ''A'', ''B'', ''B'', ''C'', ''C''],
          [''A'', ''A'', ''A'', ''B'', ''B'', ''C''],
          [''A'', ''A'', ''A'', ''B'', ''B'', ''C'']],
       knight_moves = precompute_knight_moves,
       score_cache = Map.empty \<rparr>"

subsection \<open>Scoring a path\<close>

text \<open>
  Lines 42 to 58 of \<^verbatim>\<open>calculate_score\<close>: the loop \<^verbatim>\<open>for i in range(1, len(path))\<close>
  with its early return. The result is the score the method returns; both of its return
  statements store that score in the cache first, which \<open>calculate_score\<close> below does.
\<close>

function score_loop :: "PuzzleSolver \<Rightarrow> path \<Rightarrow> weights \<Rightarrow> int \<Rightarrow> int \<Rightarrow> error + int" where
  "score_loop self path values i score =
     (if i < int (length path) then
        (case py_index path i of
           Inl e \<Rightarrow> Inl e
         | Inr p_i \<Rightarrow>
        (case cell self p_i of
           Inl e \<Rightarrow> Inl e
         | Inr curr_val \<Rightarrow>
        (case py_index path (i - 1) of
           Inl e \<Rightarrow> Inl e
         | Inr p_prev \<Rightarrow>
        (case cell self p_prev of
           Inl e \<Rightarrow> Inl e
         | Inr prev_val \<Rightarrow>
        (case values curr_val of
           None \<Rightarrow> Inl KeyError
         | Some curr_num \<Rightarrow>
             (let score' = (if curr_val = prev_val then score + curr_num
                            else score * curr_num)
              in if score' > target self then Inr score'
                 else score_loop self path values (i + 1) score'))))))
      else Inr score)"
  by pat_completeness auto
termination
  by (relation "measure (\<lambda>(self, path, values, i, score). nat (int (length path) - i))") auto

text \<open>
  Lines 40 to 58 without the cache: the first weight
  \<^verbatim>\<open>values[self.grid_values[path[0][0]][path[0][1]]]\<close>, then the loop.
\<close>

definition compute_score :: "PuzzleSolver \<Rightarrow> path \<Rightarrow> weights \<Rightarrow> error + int" where
  "compute_score self path values =
     (case py_index path 0 of
        Inl e \<Rightarrow> Inl e
      | Inr p0 \<Rightarrow>
     (case cell self p0 of
        Inl e \<Rightarrow> Inl e
      | Inr v0 \<Rightarrow>
     (case values v0 of
        None \<Rightarrow> Inl KeyError
      | Some score \<Rightarrow> score_loop self path values 1 score)))"

text \<open>
  \<^verbatim>\<open>calculate_score\<close>: the cache is keyed by \<^verbatim>\<open>tuple(path)\<close>, an immutable copy of the
  list, so a key is the list's value at the time of the call. A hit returns the stored
  score before the path is read at all.
\<close>

definition calculate_score :: "PuzzleSolver \<Rightarrow> path \<Rightarrow> weights \<Rightarrow> error + (int \<times> PuzzleSolver)" where
  "calculate_score self path values =
     (case score_cache self path of
        Some cached \<Rightarrow> Inr (cached, self)
      | None \<Rightarrow>
          (case compute_score self path values of
             Inl e \<Rightarrow> Inl e
           | Inr score \<Rightarrow>
               Inr (score, self\<lparr>score_cache := (score_cache self)(path \<mapsto> score)\<rparr>)))"

subsection \<open>The path search\<close>

text \<open>
  Python's truth value of a search result (\<^verbatim>\<open>if result:\<close>, \<^verbatim>\<open>if not path1:\<close>):
  \<^verbatim>\<open>None\<close> and the empty list are false.
\<close>

definition truthy :: "path option \<Rightarrow> bool" where
  "truthy r = (case r of None \<Rightarrow> False | Some p \<Rightarrow> p \<noteq> [])"

text \<open>
  The nested function \<^verbatim>\<open>dfs\<close> and its \<^verbatim>\<open>for next_pos in self.knight_moves[pos]\<close> loop.
  The lists \<^verbatim>\<open>path\<close> and \<^verbatim>\<open>visited\<close> are mutated in place by the source
  (\<^verbatim>\<open>append\<close>/\<^verbatim>\<open>pop\<close>, \<^verbatim>\<open>add\<close>/\<^verbatim>\<open>remove\<close>), so they are state: each call takes them,
  with the solver, and returns them as it leaves them. \<^verbatim>\<open>end\<close> and \<^verbatim>\<open>values\<close> are the
  variables of \<^verbatim>\<open>find_path\<close> that the closure reads. \<^verbatim>\<open>set.remove\<close> of a missing
  element raises \<^verbatim>\<open>KeyError\<close> and \<^verbatim>\<open>list.pop\<close> of an empty list \<^verbatim>\<open>IndexError\<close>.
\<close>

type_synonym search_state = "path \<times> pos set \<times> PuzzleSolver"

function dfs :: "pos \<Rightarrow> weights \<Rightarrow> pos \<Rightarrow> int \<Rightarrow> int \<Rightarrow> search_state
                   \<Rightarrow> error + (path option \<times> search_state)"
  and dfs_loop :: "pos \<Rightarrow> weights \<Rightarrow> pos list \<Rightarrow> int \<Rightarrow> int \<Rightarrow> search_state
                   \<Rightarrow> error + (path option \<times> search_state)" where
  "dfs end values pos depth max_depth (path, visited, self) =
     (if depth > max_depth then Inr (None, path, visited, self)
      else if pos = end then
        (case calculate_score self path values of
           Inl e \<Rightarrow> Inl e
         | Inr (score, self1) \<Rightarrow>
             if score = target self1 then Inr (Some path, path, visited, self1)
             else Inr (None, path, visited, self1))
      else
        (case calculate_score self path values of
           Inl e \<Rightarrow> Inl e
         | Inr (curr_score, self1) \<Rightarrow>
             if curr_score > target self1 then Inr (None, path, visited, self1)
             else
               (case knight_moves self1 pos of
                  None \<Rightarrow> Inl KeyError
                | Some nexts \<Rightarrow> dfs_loop end values nexts depth max_depth (path, visited, self1))))"
| "dfs_loop end values [] depth max_depth (path, visited, self) =
     Inr (None, path, visited, self)"
| "dfs_loop end values (next_pos # rest) depth max_depth (path, visited, self) =
     (if next_pos \<notin> visited then
        (case dfs end values next_pos (depth + 1) max_depth
                (path @ [next_pos], insert next_pos visited, self) of
           Inl e \<Rightarrow> Inl e
         | Inr (result, path1, visited1, self1) \<Rightarrow>
             if truthy result then Inr (result, path1, visited1, self1)
             else if next_pos \<notin> visited1 then Inl KeyError
             else if path1 = [] then Inl IndexError
             else dfs_loop end values rest depth max_depth
                    (butlast path1, visited1 - {next_pos}, self1))
      else dfs_loop end values rest depth max_depth (path, visited, self))"
  by pat_completeness auto
termination
  by (relation "inv_image (less_than <*lex*> less_than) (\<lambda>x. case x of
          Inl (e, values, pos, depth, max_depth, st) \<Rightarrow> (2 * nat (max_depth + 1 - depth), 0)
        | Inr (e, values, nexts, depth, max_depth, st) \<Rightarrow>
            (2 * nat (max_depth - depth) + 1, length nexts))") auto

text \<open>Python's \<^verbatim>\<open>range(a, b)\<close>.\<close>

definition py_range :: "int \<Rightarrow> int \<Rightarrow> int list" where
  "py_range a b = [a..b - 1]"

text \<open>
  The loop \<^verbatim>\<open>for max_depth in range(4, 12)\<close> of \<^verbatim>\<open>find_path\<close>: every round starts from a
  fresh list \<^verbatim>\<open>[start]\<close> and a fresh set \<^verbatim>\<open>{start}\<close>, and keeps the solver's cache.
\<close>

fun find_path_rounds :: "PuzzleSolver \<Rightarrow> pos \<Rightarrow> pos \<Rightarrow> weights \<Rightarrow> int list
                           \<Rightarrow> error + (path option \<times> PuzzleSolver)" where
  "find_path_rounds self start end values [] = Inr (None, self)"
| "find_path_rounds self start end values (max_depth # rest) =
     (case dfs end values start 0 max_depth ([start], {start}, self) of
        Inl e \<Rightarrow> Inl e
      | Inr (result, path1, visited1, self1) \<Rightarrow>
          if truthy result then Inr (result, self1)
          else find_path_rounds self1 start end values rest)"

definition find_path :: "PuzzleSolver \<Rightarrow> pos \<Rightarrow> pos \<Rightarrow> weights
                           \<Rightarrow> error + (path option \<times> PuzzleSolver)" where
  "find_path self start end values = find_path_rounds self start end values (py_range 4 12)"

subsection \<open>Formatting\<close>

text \<open>
  A Python string is a sequence of Unicode code points, so it is a list of code points
  here; \<open>str\<close> reads an ASCII literal. \<^verbatim>\<open>chr(n)\<close> raises \<^verbatim>\<open>ValueError\<close> outside
  \<open>[0, 0x110000)\<close>.
\<close>

type_synonym pystr = "nat list"

definition str :: "string \<Rightarrow> pystr" where
  "str s = map of_char s"

definition py_chr :: "int \<Rightarrow> error + nat" where
  "py_chr n = (if 0 \<le> n \<and> n < 1114112 then Inr (nat n) else Inl ValueError)"

text \<open>The decimal digits of a natural number, and Python's rendering of an integer.\<close>

function digits10 :: "nat \<Rightarrow> pystr" where
  "digits10 n = (if n < 10 then [48 + n] else digits10 (n div 10) @ [48 + n mod 10])"
  by pat_completeness auto
termination
  by (relation "measure (\<lambda>n. n)") auto

definition str_int :: "int \<Rightarrow> pystr" where
  "str_int i = (if i < 0 then 45 # digits10 (nat (- i)) else digits10 (nat i))"

text \<open>The generator \<^verbatim>\<open>f"{chr(97 + y)}{6 - x}" for x, y in path\<close>, and \<^verbatim>\<open>','.join\<close>.\<close>

fun path_tokens :: "path \<Rightarrow> error + pystr list" where
  "path_tokens [] = Inr []"
| "path_tokens ((x, y) # rest) =
     (case py_chr (97 + y) of
        Inl e \<Rightarrow> Inl e
      | Inr letter \<Rightarrow>
          (case path_tokens rest of
             Inl e \<Rightarrow> Inl e
           | Inr ts \<Rightarrow> Inr ((letter # str_int (6 - x)) # ts)))"

fun join :: "pystr \<Rightarrow> pystr list \<Rightarrow> pystr" where
  "join sep [] = []"
| "join sep [t] = t"
| "join sep (t # ts) = t @ sep @ join sep ts"

definition format_path :: "path \<Rightarrow> error + pystr" where
  "format_path path =
     (case path_tokens path of Inl e \<Rightarrow> Inl e | Inr ts \<Rightarrow> Inr (join (str '','') ts))"

definition format_solution :: "int \<Rightarrow> int \<Rightarrow> int \<Rightarrow> path \<Rightarrow> path \<Rightarrow> error + pystr" where
  "format_solution A B C path1 path2 =
     (case format_path path1 of
        Inl e \<Rightarrow> Inl e
      | Inr s1 \<Rightarrow>
          (case format_path path2 of
             Inl e \<Rightarrow> Inl e
           | Inr s2 \<Rightarrow>
               Inr (str_int A @ str '','' @ str_int B @ str '','' @ str_int C @ str '',''
                    @ s1 @ str '','' @ s2)))"

subsection \<open>The optimizer\<close>

text \<open>
  Lines 122 to 134 of \<^verbatim>\<open>solve\<close>, for one triple: build \<^verbatim>\<open>values\<close>, clear the cache, search
  the first path and, when it is found, the second. The result is the pair of paths when
  both are found.
\<close>

definition weights_of :: "int \<Rightarrow> int \<Rightarrow> int \<Rightarrow> weights" where
  "weights_of A B C = [''A'' \<mapsto> A, ''B'' \<mapsto> B, ''C'' \<mapsto> C]"

definition try_triple :: "PuzzleSolver \<Rightarrow> int \<Rightarrow> int \<Rightarrow> int
                            \<Rightarrow> error + ((path \<times> path) option \<times> PuzzleSolver)" where
  "try_triple self A B C =
     (let values = weights_of A B C;
          self0 = self\<lparr>score_cache := Map.empty\<rparr>
      in case find_path self0 (5, 0) (0, 5) values of
           Inl e \<Rightarrow> Inl e
         | Inr (path1, self1) \<Rightarrow>
             if \<not> truthy path1 then Inr (None, self1)
             else
               (case find_path self1 (0, 0) (5, 5) values of
                  Inl e \<Rightarrow> Inl e
                | Inr (path2, self2) \<Rightarrow>
                    if \<not> truthy path2 then Inr (None, self2)
                    else Inr (Some (the path1, the path2), self2)))"















text \<open>
  The recursion equations of the loops are unfolded by hand in the proofs below and named
  where a concrete run is evaluated.
\<close>

declare score_loop.simps [simp del]

declare dfs.simps [simp del]

declare dfs_loop.simps [simp del]

declare digits10.simps [simp del]

section \<open>Notions of the specification\<close>

text \<open>A position of the grid: row and column in \<open>[0, 6)\<close>.\<close>

definition in_grid :: "pos \<Rightarrow> bool" where
  "in_grid p = (0 \<le> fst p \<and> fst p < 6 \<and> 0 \<le> snd p \<and> snd p < 6)"

text \<open>
  The eight knight offsets as the specification words them: \<open>(\<plusminus>2, \<plusminus>1)\<close> and
  \<open>(\<plusminus>1, \<plusminus>2)\<close>.
\<close>

definition knight_offset_spec :: "int \<times> int \<Rightarrow> bool" where
  "knight_offset_spec d =
     ((\<bar>fst d\<bar> = 2 \<and> \<bar>snd d\<bar> = 1) \<or> (\<bar>fst d\<bar> = 1 \<and> \<bar>snd d\<bar> = 2))"

text \<open>
  The cell class of a position and the weight of a class, as total functions: the label
  that \<open>cell\<close> reads and the weight that \<^verbatim>\<open>values\<close> holds (with a default where the
  source would raise). A path is \<open>scorable\<close> when every position of it has a label in
  the table and every such label has a weight, so that scoring it raises nothing.
\<close>

definition class_of :: "PuzzleSolver \<Rightarrow> pos \<Rightarrow> string" where
  "class_of self p = (case cell self p of Inr c \<Rightarrow> c | Inl e \<Rightarrow> [])"

definition weight_of :: "weights \<Rightarrow> string \<Rightarrow> int" where
  "weight_of values c = (case values c of Some w \<Rightarrow> w | None \<Rightarrow> 0)"

definition scorable :: "PuzzleSolver \<Rightarrow> weights \<Rightarrow> path \<Rightarrow> bool" where
  "scorable self values path =
     list_all (\<lambda>p. case cell self p of Inl e \<Rightarrow> False | Inr c \<Rightarrow> values c \<noteq> None) path"

text \<open>
  The score as the specification describes it: start from the weight of the first
  position's class; for each later position add its weight when its class equals the
  previous position's class, and multiply by its weight otherwise. \<open>score_exact\<close> is
  the whole fold; \<open>score_early\<close> returns, after any step, the running score once it
  exceeds the target.
\<close>

fun fold_exact :: "(pos \<Rightarrow> string) \<Rightarrow> (string \<Rightarrow> int) \<Rightarrow> pos \<Rightarrow> int \<Rightarrow> path \<Rightarrow> int" where
  "fold_exact cls wt prev s [] = s"
| "fold_exact cls wt prev s (p # ps) =
     fold_exact cls wt p (if cls p = cls prev then s + wt (cls p) else s * wt (cls p)) ps"

definition score_exact :: "(pos \<Rightarrow> string) \<Rightarrow> (string \<Rightarrow> int) \<Rightarrow> path \<Rightarrow> int" where
  "score_exact cls wt path =
     (case path of [] \<Rightarrow> 0 | p # ps \<Rightarrow> fold_exact cls wt p (wt (cls p)) ps)"

fun fold_early :: "int \<Rightarrow> (pos \<Rightarrow> string) \<Rightarrow> (string \<Rightarrow> int) \<Rightarrow> pos \<Rightarrow> int \<Rightarrow> path \<Rightarrow> int" where
  "fold_early tgt cls wt prev s [] = s"
| "fold_early tgt cls wt prev s (p # ps) =
     (let s' = (if cls p = cls prev then s + wt (cls p) else s * wt (cls p))
      in if s' > tgt then s' else fold_early tgt cls wt p s' ps)"

definition score_early :: "int \<Rightarrow> (pos \<Rightarrow> string) \<Rightarrow> (string \<Rightarrow> int) \<Rightarrow> path \<Rightarrow> int" where
  "score_early tgt cls wt path =
     (case path of [] \<Rightarrow> 0 | p # ps \<Rightarrow> fold_early tgt cls wt p (wt (cls p)) ps)"

text \<open>
  The coordinate notation as the specification describes it: the letter at index \<open>col\<close>
  of the alphabet, followed by the number \<open>6 - row\<close>.
\<close>

definition alphabet :: string where
  "alphabet = ''abcdefghijklmnopqrstuvwxyz''"

definition token_spec :: "pos \<Rightarrow> pystr" where
  "token_spec p = of_char (alphabet ! nat (snd p)) # str_int (6 - fst p)"

text \<open>
  A cache is consistent with a weight assignment when every entry is the score that
  \<^verbatim>\<open>calculate_score\<close> computes for its path, from scratch, under that assignment.
\<close>

definition cache_ok :: "PuzzleSolver \<Rightarrow> weights \<Rightarrow> bool" where
  "cache_ok self values =
     (\<forall>p s. score_cache self p = Some s \<longrightarrow> compute_score self p values = Inr s)"

definition positive_weights :: "weights \<Rightarrow> bool" where
  "positive_weights values = (\<forall>c w. values c = Some w \<longrightarrow> 0 < w)"

text \<open>
  A walk of the knight-move graph: every consecutive pair of positions is an edge of the
  table, that is, the second position is in the list the table holds for the first.
\<close>

definition edge :: "(pos \<rightharpoonup> pos list) \<Rightarrow> pos \<Rightarrow> pos \<Rightarrow> bool" where
  "edge moves p q = (case moves p of None \<Rightarrow> False | Some ns \<Rightarrow> q \<in> set ns)"

fun knight_walk :: "(pos \<rightharpoonup> pos list) \<Rightarrow> path \<Rightarrow> bool" where
  "knight_walk moves (p # q # rest) = (edge moves p q \<and> knight_walk moves (q # rest))"
| "knight_walk moves [p] = True"
| "knight_walk moves [] = True"

text \<open>
  A solver with the grid and the move table the constructor builds, whatever its target
  and its cache; and a weight assignment that gives a weight to each of the three labels.
\<close>

definition same_board :: "PuzzleSolver \<Rightarrow> bool" where
  "same_board self =
     (grid_values self = grid_values init \<and> knight_moves self = knight_moves init)"

definition full_weights :: "weights \<Rightarrow> bool" where
  "full_weights values = (values ''A'' \<noteq> None \<and> values ''B'' \<noteq> None \<and> values ''C'' \<noteq> None)"

text \<open>
  The outcome of the two searches for a triple, without the solver they leave; a triple
  succeeds when both searches return a path. \<open>good\<close> is the invariant of the
  optimizer's loops after the triples \<open>seen\<close>: the solver differs from the initial one
  in its cache only; with no solution recorded every triple seen failed; a recorded
  solution is a triple seen, with the paths its searches return, \<^verbatim>\<open>best_sum\<close> is its
  sum, and no triple seen that succeeds has a smaller sum.
\<close>

definition try_result :: "PuzzleSolver \<Rightarrow> int \<Rightarrow> int \<Rightarrow> int \<Rightarrow> error + (path \<times> path) option" where
  "try_result self A B C = map_sum id fst (try_triple self A B C)"





section \<open>A reference search\<close>

text \<open>
  The search of \<^verbatim>\<open>dfs\<close> with nothing mutated: the path is passed by value, the visited
  set is the set of the path's positions, and the score of a path is given by a function
  \<open>sc\<close>. The source's \<^verbatim>\<open>dfs\<close>, with its \<^verbatim>\<open>append\<close>/\<^verbatim>\<open>pop\<close> discipline and its cache, is
  proved below to compute this search; the properties of the search are then proved
  on it.
\<close>

function dfs_ref :: "int \<Rightarrow> (pos \<rightharpoonup> pos list) \<Rightarrow> (path \<Rightarrow> error + int) \<Rightarrow> pos \<Rightarrow> pos
                       \<Rightarrow> int \<Rightarrow> int \<Rightarrow> path \<Rightarrow> error + path option"
  and dfs_loop_ref :: "int \<Rightarrow> (pos \<rightharpoonup> pos list) \<Rightarrow> (path \<Rightarrow> error + int) \<Rightarrow> pos \<Rightarrow> pos list
                       \<Rightarrow> int \<Rightarrow> int \<Rightarrow> path \<Rightarrow> error + path option" where
  "dfs_ref tgt moves sc end pos depth max_depth path =
     (if depth > max_depth then Inr None
      else
        (case sc path of
           Inl e \<Rightarrow> Inl e
         | Inr score \<Rightarrow>
             if pos = end then (if score = tgt then Inr (Some path) else Inr None)
             else if score > tgt then Inr None
             else
               (case moves pos of
                  None \<Rightarrow> Inl KeyError
                | Some nexts \<Rightarrow> dfs_loop_ref tgt moves sc end nexts depth max_depth path)))"
| "dfs_loop_ref tgt moves sc end [] depth max_depth path = Inr None"
| "dfs_loop_ref tgt moves sc end (next_pos # rest) depth max_depth path =
     (if next_pos \<notin> set path then
        (case dfs_ref tgt moves sc end next_pos (depth + 1) max_depth (path @ [next_pos]) of
           Inl e \<Rightarrow> Inl e
         | Inr result \<Rightarrow>
             if truthy result then Inr result
             else dfs_loop_ref tgt moves sc end rest depth max_depth path)
      else dfs_loop_ref tgt moves sc end rest depth max_depth path)"
  by pat_completeness auto
termination
  by (relation "inv_image (less_than <*lex*> less_than) (\<lambda>x. case x of
          Inl (tgt, moves, sc, e, pos, depth, max_depth, path) \<Rightarrow>
            (2 * nat (max_depth + 1 - depth), 0)
        | Inr (tgt, moves, sc, e, nexts, depth, max_depth, path) \<Rightarrow>
            (2 * nat (max_depth - depth) + 1, length nexts))") auto

declare dfs_ref.simps [simp del]

declare dfs_loop_ref.simps [simp del]

fun find_path_rounds_ref :: "int \<Rightarrow> (pos \<rightharpoonup> pos list) \<Rightarrow> (path \<Rightarrow> error + int) \<Rightarrow> pos \<Rightarrow> pos
                               \<Rightarrow> int list \<Rightarrow> error + path option" where
  "find_path_rounds_ref tgt moves sc start end [] = Inr None"
| "find_path_rounds_ref tgt moves sc start end (max_depth # rest) =
     (case dfs_ref tgt moves sc end start 0 max_depth [start] of
        Inl e \<Rightarrow> Inl e
      | Inr result \<Rightarrow>
          if truthy result then Inr result
          else find_path_rounds_ref tgt moves sc start end rest)"

text \<open>
  The search of \<^verbatim>\<open>find_path\<close> with no cache: the rounds of the reference search with
  every score computed from scratch.
\<close>

definition search_ref :: "PuzzleSolver \<Rightarrow> weights \<Rightarrow> pos \<Rightarrow> pos \<Rightarrow> error + path option" where
  "search_ref self values start end =
     find_path_rounds_ref (target self) (knight_moves self)
       (\<lambda>p. compute_score self p values) start end (py_range 4 12)"

text \<open>
  What \<^verbatim>\<open>calculate_score\<close> returns during a search that starts with the cache \<open>c0\<close>: the
  entry of \<open>c0\<close> when there is one, and the computed score otherwise. A later cache
  \<open>c\<close> extends \<open>c0\<close> when it keeps the entries of \<open>c0\<close> and every entry of it is that
  score.
\<close>

definition cached_score :: "(path \<rightharpoonup> int) \<Rightarrow> PuzzleSolver \<Rightarrow> weights \<Rightarrow> path \<Rightarrow> error + int" where
  "cached_score c0 self values p =
     (case c0 p of Some s \<Rightarrow> Inr s | None \<Rightarrow> compute_score self p values)"

definition cache_extends :: "(path \<rightharpoonup> int) \<Rightarrow> PuzzleSolver \<Rightarrow> weights \<Rightarrow> (path \<rightharpoonup> int) \<Rightarrow> bool" where
  "cache_extends c0 self values c =
     (c0 \<subseteq>\<^sub>m c \<and> (\<forall>p s. c p = Some s \<longrightarrow> cached_score c0 self values p = Inr s))"

text \<open>
  The state \<^verbatim>\<open>dfs\<close> leaves: on success the path is the result, otherwise it is the
  path of the call (every \<^verbatim>\<open>append\<close> has been undone). \<open>refines\<close> relates a run of the
  source's search to a result of the reference search.
\<close>

definition final_path :: "path option \<Rightarrow> path \<Rightarrow> path" where
  "final_path r path = (case r of None \<Rightarrow> path | Some p \<Rightarrow> if p = [] then path else p)"

definition refines :: "error + (path option \<times> search_state) \<Rightarrow> error + path option
                         \<Rightarrow> (path \<rightharpoonup> int) \<Rightarrow> PuzzleSolver \<Rightarrow> path \<Rightarrow> weights \<Rightarrow> bool" where
  "refines res ref c0 self path values =
     (case ref of
        Inl e \<Rightarrow> res = Inl e
      | Inr r \<Rightarrow>
          (\<exists>c'. res = Inr (r, final_path r path, set (final_path r path),
                           self\<lparr>score_cache := c'\<rparr>) \<and>
                cache_extends c0 self values c'))"

text \<open>
  What a found path satisfies: it extends the path of the call, ends at \<open>end\<close>, repeats no
  position, walks the knight-move graph, has at most \<open>max_depth + 1\<close> positions and
  scores the target.
\<close>

definition found :: "int \<Rightarrow> (pos \<rightharpoonup> pos list) \<Rightarrow> (path \<Rightarrow> error + int) \<Rightarrow> pos \<Rightarrow> int
                       \<Rightarrow> path \<Rightarrow> path \<Rightarrow> bool" where
  "found tgt moves sc e max_depth path p =
     ((\<exists>ext. p = path @ ext) \<and> last p = e \<and> distinct p \<and> knight_walk moves p \<and>
      int (length p) \<le> max_depth + 1 \<and> sc p = Inr tgt)"

section \<open>The knight-move table is the set of in-bounds knight destinations\<close>

lemma moves_row_apply:
  "moves_row i js m (a, b) =
     (if a = i \<and> b \<in> set js then Some (valid_from i b knight_deltas) else m (a, b))"
  by (induction js arbitrary: m) auto

lemma moves_rows_apply:
  "moves_rows is m (a, b) =
     (if a \<in> set is \<and> b \<in> {0..5} then Some (valid_from a b knight_deltas) else m (a, b))"
  by (induction "is" arbitrary: m) (auto simp: moves_row_apply)

lemma precompute_knight_moves_apply:
  "precompute_knight_moves p =
     (if in_grid p then Some (valid_from (fst p) (snd p) knight_deltas) else None)"
  by (cases p) (auto simp: precompute_knight_moves_def moves_rows_apply in_grid_def)

lemma knight_offset_spec_deltas:
  "knight_offset_spec d \<longleftrightarrow> d \<in> set knight_deltas"
proof (cases d)
  case (Pair dx dy)
  show ?thesis unfolding Pair knight_offset_spec_def knight_deltas_def
    by (simp add: abs_if) presburger
qed

lemma set_valid_from:
  "set (valid_from i j ds) =
     {(i + dx, j + dy) | dx dy. (dx, dy) \<in> set ds \<and> in_grid (i + dx, j + dy)}"
  by (induction i j ds rule: valid_from.induct) (auto simp: in_grid_def Let_def)

lemma distinct_valid_from:
  "distinct ds \<Longrightarrow> distinct (valid_from i j ds)"
  by (induction i j ds rule: valid_from.induct) (auto simp: set_valid_from Let_def)

lemma valid_from_in_grid:
  "q \<in> set (valid_from i j ds) \<Longrightarrow> in_grid q"
  by (auto simp: set_valid_from)

text \<open>
  Claim C6. For every position \<open>(i, j)\<close> of the grid, the table built by
  \<^verbatim>\<open>_precompute_knight_moves\<close> holds a list without repetition whose elements are exactly
  the positions \<open>(i + dx, j + dy)\<close>, for \<open>(dx, dy)\<close> one of the eight knight offsets, that
  lie in the grid. The neighbours of \<open>(0, 0)\<close> are \<open>(1, 2)\<close> and \<open>(2, 1)\<close>, and \<open>(2, 2)\<close>
  has eight neighbours.
\<close>

theorem knight_table_exact:
  "(in_grid (i, j) \<longrightarrow>
     (\<exists>ns. knight_moves init (i, j) = Some ns \<and> distinct ns \<and>
        set ns = {(i + dx, j + dy) | dx dy.
                    knight_offset_spec (dx, dy) \<and> in_grid (i + dx, j + dy)})) \<and>
   (\<exists>ns. knight_moves init (0, 0) = Some ns \<and> set ns = {(1, 2), (2, 1)}) \<and>
   (\<exists>ns. knight_moves init (2, 2) = Some ns \<and> length ns = 8)"
proof (intro conjI impI)
  assume g: "in_grid (i, j)"
  have "knight_moves init (i, j) = Some (valid_from i j knight_deltas)"
    using g by (simp add: init_def precompute_knight_moves_apply)
  moreover have "distinct (valid_from i j knight_deltas)"
    by (rule distinct_valid_from) (simp add: knight_deltas_def)
  moreover have "set (valid_from i j knight_deltas) =
      {(i + dx, j + dy) | dx dy. knight_offset_spec (dx, dy) \<and> in_grid (i + dx, j + dy)}"
    by (simp add: set_valid_from knight_offset_spec_deltas)
  ultimately show "\<exists>ns. knight_moves init (i, j) = Some ns \<and> distinct ns \<and>
        set ns = {(i + dx, j + dy) | dx dy.
                    knight_offset_spec (dx, dy) \<and> in_grid (i + dx, j + dy)}"
    by blast
next
  have "knight_moves init (0, 0) = Some [(2, 1), (1, 2)]"
    by (simp add: init_def precompute_knight_moves_apply in_grid_def knight_deltas_def)
  then show "\<exists>ns. knight_moves init (0, 0) = Some ns \<and> set ns = {(1, 2), (2, 1)}"
    by auto
next
  have "knight_moves init (2, 2) =
      Some [(4, 3), (4, 1), (0, 3), (0, 1), (3, 4), (3, 0), (1, 4), (1, 0)]"
    by (simp add: init_def precompute_knight_moves_apply in_grid_def knight_deltas_def)
  then show "\<exists>ns. knight_moves init (2, 2) = Some ns \<and> length ns = 8"
    by simp
qed

theorem knight_table_exact_witness:
  "in_grid (5, 0) \<and>
   (\<exists>ns. knight_moves init (5, 0) = Some ns \<and> distinct ns \<and> set ns = {(3, 1), (4, 2)})"
proof -
  have g: "in_grid (5, 0)" by (simp add: in_grid_def)
  have s: "{(5 + dx, 0 + dy) | dx dy. knight_offset_spec (dx, dy) \<and> in_grid (5 + dx, 0 + dy)}
      = {(3, 1), (4, 2::int)}"
  proof -
    have "{(5 + dx, 0 + dy) | dx dy. knight_offset_spec (dx, dy) \<and> in_grid (5 + dx, 0 + dy)}
        = set (valid_from 5 0 knight_deltas)"
      unfolding knight_offset_spec_deltas set_valid_from ..
    also have "\<dots> = {(3, 1), (4, 2)}"
      by (auto simp: knight_deltas_def)
    finally show ?thesis .
  qed
  from knight_table_exact [of 5 0] g s show ?thesis by simp
qed

section \<open>The score of a path\<close>

subsection \<open>The loop of the source computes the fold of the specification\<close>

lemma py_index_nat: "i < length xs \<Longrightarrow> py_index xs (int i) = Inr (xs ! i)"
  by (simp add: py_index_def)

lemma scorable_nth:
  "scorable self values path \<Longrightarrow> i < length path \<Longrightarrow>
     cell self (path ! i) = Inr (class_of self (path ! i)) \<and>
     values (class_of self (path ! i)) = Some (weight_of values (class_of self (path ! i)))"
  by (auto simp: scorable_def list_all_length class_of_def weight_of_def
        split: sum.splits option.splits)

lemma score_loop_fold:
  assumes "scorable self values path"
  shows "0 < i \<Longrightarrow> i \<le> length path \<Longrightarrow>
     score_loop self path values (int i) s =
       Inr (fold_early (target self) (class_of self) (weight_of values) (path ! (i - 1)) s
              (drop i path))"
proof (induction "length path - i" arbitrary: i s)
  case 0
  then have "i = length path" by simp
  then show ?case by (simp add: score_loop.simps [of self path _ "int (length path)"])
next
  case (Suc n)
  then have lt: "i < length path" and lt1: "i - 1 < length path" by simp_all
  have d: "drop i path = path ! i # drop (Suc i) path"
    using lt by (simp add: Cons_nth_drop_Suc)
  have i1: "int i - 1 = int (i - 1)" using Suc.prems by simp
  have IH: "\<And>s'. score_loop self path values (int i + 1) s' =
      Inr (fold_early (target self) (class_of self) (weight_of values) (path ! i) s'
             (drop (Suc i) path))"
    using Suc.hyps(1) [of "Suc i"] Suc.hyps(2) lt by (simp add: add.commute)
  show ?case
    apply (subst score_loop.simps)
    unfolding d i1
    using lt lt1 scorable_nth [OF assms lt] scorable_nth [OF assms lt1]
    by (simp add: py_index_nat IH Let_def)
qed

lemma compute_score_early:
  assumes "scorable self values path" "path \<noteq> []"
  shows "compute_score self path values =
     Inr (score_early (target self) (class_of self) (weight_of values) path)"
proof -
  obtain p ps where p: "path = p # ps" using assms(2) by (cases path) auto
  have l: "0 < length path" using p by simp
  have "py_index path 0 = Inr p" using py_index_nat [OF l] p by simp
  moreover have "score_loop self path values 1 s =
      Inr (fold_early (target self) (class_of self) (weight_of values) p s ps)" for s
    using score_loop_fold [OF assms(1), of 1 s] p by simp
  ultimately show ?thesis
    using scorable_nth [OF assms(1) l] p
    by (simp add: compute_score_def score_early_def)
qed

lemma fold_early_le_exact:
  "fold_early tgt cls wt prev s ps \<le> tgt \<Longrightarrow>
     fold_early tgt cls wt prev s ps = fold_exact cls wt prev s ps"
  by (induction ps arbitrary: prev s) (auto simp: Let_def split: if_splits)

lemma fold_exact_mono:
  "\<forall>p \<in> set ps. 0 < wt (cls p) \<Longrightarrow> 0 < s \<Longrightarrow> s \<le> fold_exact cls wt prev s ps"
proof (induction ps arbitrary: prev s)
  case Nil
  then show ?case by simp
next
  case (Cons p ps)
  let ?s' = "if cls p = cls prev then s + wt (cls p) else s * wt (cls p)"
  have w: "0 < wt (cls p)" using Cons.prems by simp
  have "s \<le> s * wt (cls p)" using w Cons.prems(2) by (simp add: mult_le_cancel_left1)
  then have a: "s \<le> ?s'" using w by (cases "cls p = cls prev") simp_all
  then have "0 < ?s'" using Cons.prems(2) by linarith
  then have "?s' \<le> fold_exact cls wt p ?s' ps" using Cons.IH Cons.prems(1) by simp
  with a show ?case by simp
qed

lemma fold_early_gt_exact:
  "\<forall>p \<in> set ps. 0 < wt (cls p) \<Longrightarrow> 0 < s \<Longrightarrow>
     fold_early tgt cls wt prev s ps > tgt \<Longrightarrow> fold_exact cls wt prev s ps > tgt"
proof (induction ps arbitrary: prev s)
  case Nil
  then show ?case by simp
next
  case (Cons p ps)
  let ?s' = "if cls p = cls prev then s + wt (cls p) else s * wt (cls p)"
  have w: "0 < wt (cls p)" using Cons.prems by simp
  have "s \<le> s * wt (cls p)" using w Cons.prems(2) by (simp add: mult_le_cancel_left1)
  then have a: "s \<le> ?s'" using w by (cases "cls p = cls prev") simp_all
  then have pos: "0 < ?s'" using Cons.prems(2) by linarith
  show ?case
  proof (cases "?s' > tgt")
    case True
    have "?s' \<le> fold_exact cls wt p ?s' ps"
      using fold_exact_mono [of ps wt cls ?s' p] Cons.prems(1) pos by simp
    with True show ?thesis by simp
  next
    case False
    then have "fold_early tgt cls wt p ?s' ps > tgt" using Cons.prems(3) by (simp add: Let_def)
    then have "fold_exact cls wt p ?s' ps > tgt" using Cons.IH Cons.prems(1) pos by simp
    then show ?thesis by simp
  qed
qed

lemma fold_exact_append:
  "fold_exact cls wt prev s (xs @ ys) =
     fold_exact cls wt (last (prev # xs)) (fold_exact cls wt prev s xs) ys"
  by (induction xs arbitrary: prev s) auto

lemma score_exact_append:
  "xs \<noteq> [] \<Longrightarrow>
     score_exact cls wt (xs @ ys) = fold_exact cls wt (last xs) (score_exact cls wt xs) ys"
  by (cases xs) (auto simp: score_exact_def fold_exact_append)

lemma score_exact_pos:
  "xs \<noteq> [] \<Longrightarrow> \<forall>p \<in> set xs. 0 < wt (cls p) \<Longrightarrow> 0 < score_exact cls wt xs"
proof (cases xs)
  case Nil
  then show "xs \<noteq> [] \<Longrightarrow> ?thesis" by simp
next
  case (Cons p ps)
  assume "\<forall>p \<in> set xs. 0 < wt (cls p)"
  then have "0 < wt (cls p)" "\<forall>q \<in> set ps. 0 < wt (cls q)" using Cons by simp_all
  then have "wt (cls p) \<le> fold_exact cls wt p (wt (cls p)) ps"
    using fold_exact_mono [of ps wt cls "wt (cls p)" p] by simp
  with \<open>0 < wt (cls p)\<close> show ?thesis using Cons by (simp add: score_exact_def)
qed

lemma score_exact_extend:
  assumes "xs \<noteq> []" "\<forall>p \<in> set (xs @ ys). 0 < wt (cls p)" "tgt < score_exact cls wt xs"
  shows "tgt < score_exact cls wt (xs @ ys)"
proof -
  have "0 < score_exact cls wt xs" using score_exact_pos [of xs wt cls] assms by simp
  then have "score_exact cls wt xs \<le> fold_exact cls wt (last xs) (score_exact cls wt xs) ys"
    using fold_exact_mono [of ys wt cls] assms(2) by simp
  then show ?thesis using assms(1,3) by (simp add: score_exact_append)
qed

subsection \<open>The cache\<close>

lemma cell_cache_irrelevant [simp]: "cell (self\<lparr>score_cache := c\<rparr>) p = cell self p"
  by (simp add: cell_def)

lemma score_loop_cache_irrelevant [simp]:
  "score_loop (self\<lparr>score_cache := c\<rparr>) path values i s = score_loop self path values i s"
proof (induction self path "values" i s rule: score_loop.induct)
  case (1 self path vs i score)
  show ?case
    apply (subst score_loop.simps)
    apply (subst (2) score_loop.simps)
    using 1 by (auto split: sum.splits option.splits simp: Let_def)
qed

lemma compute_score_cache_irrelevant [simp]:
  "compute_score (self\<lparr>score_cache := c\<rparr>) path values = compute_score self path values"
  by (simp add: compute_score_def split: sum.splits option.splits)

lemma cache_ok_empty [simp]: "cache_ok (self\<lparr>score_cache := Map.empty\<rparr>) values"
  by (simp add: cache_ok_def)



text \<open>
  Claim C3. For a non-empty path whose positions all have a label in the grid table, and
  weights for those labels, \<^verbatim>\<open>calculate_score\<close> called with an empty cache returns the
  fold of the specification with its early exit (the test against the target follows
  each step of the fold), and stores that score for the path.
\<close>

theorem calculate_score_is_early_fold:
  assumes "scorable self values path" and "path \<noteq> []" and "score_cache self = Map.empty"
  shows "calculate_score self path values =
     Inr (score_early (target self) (class_of self) (weight_of values) path,
          self\<lparr>score_cache :=
            [path \<mapsto> score_early (target self) (class_of self) (weight_of values) path]\<rparr>)"
  using assms by (simp add: calculate_score_def compute_score_early)

theorem calculate_score_is_early_fold_witness:
  "scorable init (weights_of 1 2 3) [(0, 0), (2, 1), (1, 2)] \<and>
   [(0, 0), (2, 1), (1, 2)] \<noteq> ([] :: path) \<and>
   score_cache init = Map.empty \<and>
   score_early (target init) (class_of init) (weight_of (weights_of 1 2 3))
     [(0, 0), (2, 1), (1, 2)] = 4 \<and>
   calculate_score init [(0, 0), (2, 1), (1, 2)] (weights_of 1 2 3) =
     Inr (4, init\<lparr>score_cache := [[(0, 0), (2, 1), (1, 2)] \<mapsto> 4]\<rparr>)"
proof -
  have a: "scorable init (weights_of 1 2 3) [(0, 0), (2, 1), (1, 2)]"
    by (simp add: scorable_def cell_def py_index_def init_def weights_of_def)
  have b: "score_cache init = Map.empty" by (simp add: init_def)
  have c: "score_early (target init) (class_of init) (weight_of (weights_of 1 2 3))
     [(0, 0), (2, 1), (1, 2)] = 4"
    by (simp add: score_early_def class_of_def weight_of_def cell_def py_index_def init_def
        weights_of_def)
  from calculate_score_is_early_fold [OF a _ b] a b c show ?thesis by simp
qed

subsection \<open>Monotonicity\<close>

lemma scorable_take: "scorable self values path \<Longrightarrow> scorable self values (take n path)"
  by (auto simp: scorable_def list_all_iff dest: in_set_takeD)

lemma scorable_positive:
  "scorable self values path \<Longrightarrow> positive_weights values \<Longrightarrow>
     \<forall>p \<in> set path. 0 < weight_of values (class_of self p)"
  by (auto simp: scorable_def list_all_iff positive_weights_def class_of_def weight_of_def
      split: sum.splits option.splits)

lemma score_early_gt_iff:
  assumes "xs \<noteq> []" "\<forall>p \<in> set xs. 0 < wt (cls p)"
  shows "tgt < score_early tgt cls wt xs \<longleftrightarrow> tgt < score_exact cls wt xs"
proof (cases xs)
  case Nil
  then show ?thesis using assms by simp
next
  case (Cons p ps)
  have w: "0 < wt (cls p)" "\<forall>q \<in> set ps. 0 < wt (cls q)" using assms(2) Cons by simp_all
  show ?thesis
  proof
    assume "tgt < score_early tgt cls wt xs"
    then show "tgt < score_exact cls wt xs"
      using fold_early_gt_exact [of ps wt cls "wt (cls p)" tgt p] w Cons
      by (simp add: score_early_def score_exact_def)
  next
    assume e: "tgt < score_exact cls wt xs"
    show "tgt < score_early tgt cls wt xs"
    proof (rule ccontr)
      assume "\<not> tgt < score_early tgt cls wt xs"
      then have "fold_early tgt cls wt p (wt (cls p)) ps \<le> tgt"
        using Cons by (simp add: score_early_def)
      from fold_early_le_exact [OF this] this e Cons show False
        by (simp add: score_exact_def)
    qed
  qed
qed

text \<open>
  Claim C4. Under positive weights, if the exact score of the prefix \<open>path[0..k]\<close>
  exceeds the target, so does the exact score of every longer prefix \<open>path[0..k']\<close>; that
  prefix therefore does not score the target, and \<^verbatim>\<open>calculate_score\<close>'s computation on it
  returns a score above the target.
\<close>

theorem score_monotone:
  assumes "scorable self values path" and "positive_weights values"
    and "k < k'" and "k' < length path"
    and "target self < score_exact (class_of self) (weight_of values) (take (Suc k) path)"
  shows "target self < score_exact (class_of self) (weight_of values) (take (Suc k') path) \<and>
         score_exact (class_of self) (weight_of values) (take (Suc k') path) \<noteq> target self \<and>
         (\<exists>s. compute_score self (take (Suc k') path) values = Inr s \<and> target self < s)"
proof -
  let ?cls = "class_of self" and ?wt = "weight_of values"
  have pos: "\<forall>p \<in> set path. 0 < ?wt (?cls p)"
    using assms(1,2) by (rule scorable_positive)
  have split: "take (Suc k') path = take (Suc k) path @ drop (Suc k) (take (Suc k') path)"
    using assms(3) by (metis append_take_drop_id min.absorb1 Suc_le_mono less_imp_le take_take)
  have ne: "take (Suc k) path \<noteq> []" using assms(3,4) by auto
  have pos': "\<forall>p \<in> set (take (Suc k) path @ drop (Suc k) (take (Suc k') path)). 0 < ?wt (?cls p)"
    using pos split by (metis in_set_takeD)
  have gt: "target self < score_exact ?cls ?wt (take (Suc k') path)"
    using score_exact_extend [OF ne pos' assms(5)] split by simp
  have ne': "take (Suc k') path \<noteq> []" using assms(4) by auto
  have pos'': "\<forall>p \<in> set (take (Suc k') path). 0 < ?wt (?cls p)"
    using pos by (meson in_set_takeD)
  have "compute_score self (take (Suc k') path) values =
      Inr (score_early (target self) ?cls ?wt (take (Suc k') path))"
    using compute_score_early [OF scorable_take [OF assms(1)] ne'] .
  moreover have "target self < score_early (target self) ?cls ?wt (take (Suc k') path)"
    using score_early_gt_iff [OF ne' pos''] gt by simp
  ultimately show ?thesis using gt by simp
qed

theorem score_monotone_witness:
  "scorable init (weights_of 2024 1 1) [(0, 0), (2, 1), (1, 2)] \<and>
   positive_weights (weights_of 2024 1 1) \<and>
   target init <
     score_exact (class_of init) (weight_of (weights_of 2024 1 1)) [(0, 0), (2, 1)] \<and>
   target init <
     score_exact (class_of init) (weight_of (weights_of 2024 1 1)) [(0, 0), (2, 1), (1, 2)] \<and>
   (\<exists>s. compute_score init [(0, 0), (2, 1), (1, 2)] (weights_of 2024 1 1) = Inr s \<and>
        target init < s)"
proof -
  have a: "scorable init (weights_of 2024 1 1) [(0, 0), (2, 1), (1, 2)]"
    by (simp add: scorable_def cell_def py_index_def init_def weights_of_def)
  have b: "positive_weights (weights_of 2024 1 1)"
    by (auto simp: positive_weights_def weights_of_def split: if_splits)
  have c: "target init <
     score_exact (class_of init) (weight_of (weights_of 2024 1 1))
       (take (Suc 1) [(0, 0), (2, 1), (1, 2)])"
    by (simp add: score_exact_def class_of_def weight_of_def cell_def py_index_def init_def
        weights_of_def)
  from score_monotone [OF a b _ _ c, of 2] a b c show ?thesis by simp
qed

subsection \<open>Dependence on the cache\<close>




section \<open>The coordinate notation\<close>

lemma alphabet_codes: "map of_char alphabet = map (\<lambda>n. 97 + n) [0..<26]"
  by code_simp

lemma alphabet_nth: "n < 26 \<Longrightarrow> of_char (alphabet ! n) = 97 + n"
proof -
  assume n: "n < 26"
  have len: "length alphabet = 26" by (simp add: alphabet_def)
  have "of_char (alphabet ! n) = map of_char alphabet ! n"
    using n len by simp
  also have "\<dots> = map (\<lambda>n. 97 + n) [0..<26] ! n"
    by (simp only: alphabet_codes)
  also have "\<dots> = 97 + n"
    using n by simp
  finally show ?thesis .
qed

lemma path_tokens_spec:
  "\<forall>p \<in> set path. 0 \<le> snd p \<and> snd p < 26 \<Longrightarrow> path_tokens path = Inr (map token_spec path)"
proof (induction path)
  case Nil
  then show ?case by simp
next
  case (Cons p ps)
  obtain x y where p: "p = (x, y)" by (cases p)
  have y: "0 \<le> y" "y < 26" using Cons.prems p by simp_all
  then have "nat y < 26" by simp
  then have "of_char (alphabet ! nat y) = 97 + nat y" by (rule alphabet_nth)
  moreover have "nat (97 + y) = 97 + nat y" using y by simp
  ultimately show ?case using Cons p y by (simp add: py_chr_def token_spec_def)
qed

lemma format_path_spec:
  "\<forall>p \<in> set path. 0 \<le> snd p \<and> snd p < 26 \<Longrightarrow>
     format_path path = Inr (join (str '','') (map token_spec path))"
  by (simp add: format_path_def path_tokens_spec)

text \<open>
  Claim C9. For every path whose columns index a letter of the alphabet (the grid's
  columns do), \<^verbatim>\<open>format_path\<close> joins with commas the tokens made of the letter at index
  \<open>col\<close> and the number \<open>6 - row\<close>, and \<^verbatim>\<open>format_solution\<close> is the three weights, the
  formatted first path and the formatted second path, separated by commas. The three
  examples of the specification are evaluated.
\<close>

theorem format_notation:
  "((\<forall>p \<in> set path1 \<union> set path2. 0 \<le> snd p \<and> snd p < 26) \<longrightarrow>
      format_path path1 = Inr (join (str '','') (map token_spec path1)) \<and>
      format_solution A B C path1 path2 =
        Inr (str_int A @ str '','' @ str_int B @ str '','' @ str_int C @ str '',''
             @ join (str '','') (map token_spec path1) @ str '',''
             @ join (str '','') (map token_spec path2))) \<and>
   format_path [(5, 0)] = Inr (str ''a1'') \<and>
   format_path [(0, 5)] = Inr (str ''f6'') \<and>
   format_path [(5, 0), (3, 1)] = Inr (str ''a1,b3'')"
proof (intro conjI impI)
  assume a: "\<forall>p \<in> set path1 \<union> set path2. 0 \<le> snd p \<and> snd p < 26"
  then have p1: "format_path path1 = Inr (join (str '','') (map token_spec path1))"
    and p2: "format_path path2 = Inr (join (str '','') (map token_spec path2))"
    by (simp_all add: format_path_spec)
  show "format_path path1 = Inr (join (str '','') (map token_spec path1))" by (rule p1)
  show "format_solution A B C path1 path2 =
        Inr (str_int A @ str '','' @ str_int B @ str '','' @ str_int C @ str '',''
             @ join (str '','') (map token_spec path1) @ str '',''
             @ join (str '','') (map token_spec path2))"
    by (simp add: format_solution_def p1 p2)
next
  show "format_path [(5, 0)] = Inr (str ''a1'')"
    by (simp add: format_path_def py_chr_def str_int_def digits10.simps str_def)
  show "format_path [(0, 5)] = Inr (str ''f6'')"
    by (simp add: format_path_def py_chr_def str_int_def digits10.simps str_def)
  show "format_path [(5, 0), (3, 1)] = Inr (str ''a1,b3'')"
    by (simp add: format_path_def py_chr_def str_int_def digits10.simps str_def)
qed

theorem format_notation_witness:
  "(0::int) \<le> 0 \<and> (5::int) < 26 \<and>
   format_solution 1 2 3 [(5, 0), (3, 1)] [(0, 5)] = Inr (str ''1,2,3,a1,b3,f6'')"
proof -
  have a: "\<forall>p \<in> set [(5, 0), (3, 1)] \<union> set [(0, 5::int)]. 0 \<le> snd p \<and> snd p < (26::int)"
    by simp
  have "format_solution 1 2 3 [(5, 0), (3, 1)] [(0, 5)] =
        Inr (str_int 1 @ str '','' @ str_int 2 @ str '','' @ str_int 3 @ str '',''
             @ join (str '','') (map token_spec [(5, 0), (3, 1)]) @ str '',''
             @ join (str '','') (map token_spec [(0, 5)]))"
    using format_notation [of "[(5, 0), (3, 1)]" "[(0, 5)]" 1 2 3] a by blast
  then show ?thesis
    by (simp add: token_spec_def alphabet_def str_int_def digits10.simps str_def)
qed

section \<open>The source's search computes the reference search\<close>

lemma cached_score_empty [simp]: "cached_score Map.empty self values = (\<lambda>p. compute_score self p values)"
  by (simp add: cached_score_def fun_eq_iff)

lemma cache_extends_refl [simp]: "cache_extends c0 self values c0"
  by (auto simp: cache_extends_def cached_score_def)


lemma calculate_score_upd:
  assumes "cache_extends c0 self values c"
  shows "calculate_score (self\<lparr>score_cache := c\<rparr>) path values =
     (case cached_score c0 self values path of
        Inl e \<Rightarrow> Inl e
      | Inr s \<Rightarrow> Inr (s, self\<lparr>score_cache := c(path \<mapsto> s)\<rparr>))"
proof (cases "c path")
  case None
  then have "c0 path = None"
    using assms by (auto simp: cache_extends_def map_le_def dom_def)
  then show ?thesis using None
    by (simp add: calculate_score_def cached_score_def split: sum.splits)
next
  case (Some s)
  then have "cached_score c0 self values path = Inr s"
    using assms by (simp add: cache_extends_def)
  moreover have "c(path \<mapsto> s) = c" using Some by (rule map_upd_triv)
  ultimately show ?thesis using Some by (simp add: calculate_score_def)
qed

lemma cache_extends_upd:
  assumes "cache_extends c0 self values c" "cached_score c0 self values path = Inr s"
  shows "cache_extends c0 self values (c(path \<mapsto> s))"
proof -
  have "c0 \<subseteq>\<^sub>m c(path \<mapsto> s)"
    unfolding map_le_def
  proof
    fix a assume a: "a \<in> dom c0"
    then have "c0 a = c a" using assms(1) by (simp add: cache_extends_def map_le_def)
    moreover have "a = path \<Longrightarrow> c0 a = Some s"
      using a assms(2) by (auto simp: cached_score_def)
    ultimately show "c0 a = (c(path \<mapsto> s)) a" by auto
  qed
  then show ?thesis using assms by (simp add: cache_extends_def)
qed

lemma dfs_refines_ref:
  assumes "tgt = target self" "moves = knight_moves self" "sc = cached_score c0 self vs"
  shows "(\<forall>c. cache_extends c0 self vs c \<longrightarrow>
      refines (dfs e vs pos depth max_depth (path, set path, self\<lparr>score_cache := c\<rparr>))
        (dfs_ref tgt moves sc e pos depth max_depth path) c0 self path vs)"
  and "(\<forall>c. cache_extends c0 self vs c \<longrightarrow>
      refines (dfs_loop e vs nexts depth max_depth (path, set path, self\<lparr>score_cache := c\<rparr>))
        (dfs_loop_ref tgt moves sc e nexts depth max_depth path) c0 self path vs)"
  using assms
proof (induction tgt moves sc e pos depth max_depth path
    and tgt moves sc e nexts depth max_depth path rule: dfs_ref_dfs_loop_ref.induct)
  case (1 tgt moves sc e pos depth max_depth path)
  note par = "1.prems"
  show ?case
  proof (intro allI impI)
    fix c
    assume ok: "cache_extends c0 self vs c"
    show "refines (dfs e vs pos depth max_depth (path, set path, self\<lparr>score_cache := c\<rparr>))
        (dfs_ref tgt moves sc e pos depth max_depth path) c0 self path vs"
    proof (cases "depth > max_depth")
      case True
      then show ?thesis using ok par
        by (auto simp: dfs.simps dfs_ref.simps refines_def final_path_def)
    next
      case False
      show ?thesis
      proof (cases "sc path")
        case (Inl err)
        then show ?thesis using False par
          by (simp add: dfs.simps dfs_ref.simps refines_def calculate_score_upd [OF ok])
      next
        case (Inr s)
        have Inr': "cached_score c0 self vs path = Inr s" using Inr par by simp
        note ok' = cache_extends_upd [OF ok Inr']
        show ?thesis
        proof (cases "pos = e")
          case True
          then show ?thesis using False Inr Inr' ok' par
            by (auto simp: dfs.simps dfs_ref.simps refines_def calculate_score_upd [OF ok]
                final_path_def)
        next
          case ne: False
          show ?thesis
          proof (cases "s > tgt")
            case True
            then show ?thesis using False Inr Inr' ok' ne par
              by (auto simp: dfs.simps dfs_ref.simps refines_def calculate_score_upd [OF ok]
                  final_path_def)
          next
            case le: False
            show ?thesis
            proof (cases "moves pos")
              case None
              then show ?thesis using False Inr Inr' ne le par
                by (simp add: dfs.simps dfs_ref.simps refines_def calculate_score_upd [OF ok])
            next
              case (Some nexts)
              have "refines (dfs_loop e vs nexts depth max_depth
                       (path, set path, self\<lparr>score_cache := c(path \<mapsto> s)\<rparr>))
                     (dfs_loop_ref tgt moves sc e nexts depth max_depth path) c0 self path vs"
                using "1.IH" [OF False Inr ne le Some par] ok' by blast
              then show ?thesis using False Inr Inr' ne le Some par
                by (simp add: dfs.simps dfs_ref.simps calculate_score_upd [OF ok])
            qed
          qed
        qed
      qed
    qed
  qed
next
  case (2 tgt moves sc e depth max_depth path)
  then show ?case
    by (auto simp: dfs_loop.simps dfs_loop_ref.simps refines_def final_path_def)
next
  case (3 tgt moves sc e next_pos rest depth max_depth path)
  note par = "3.prems"
  show ?case
  proof (intro allI impI)
    fix c
    assume ok: "cache_extends c0 self vs c"
    show "refines (dfs_loop e vs (next_pos # rest) depth max_depth
                     (path, set path, self\<lparr>score_cache := c\<rparr>))
        (dfs_loop_ref tgt moves sc e (next_pos # rest) depth max_depth path) c0 self path vs"
    proof (cases "next_pos \<in> set path")
      case True
      then show ?thesis using "3.IH"(3) par ok
        by (simp add: dfs_loop.simps dfs_loop_ref.simps)
    next
      case False
      have sub: "refines (dfs e vs next_pos (depth + 1) max_depth
             (path @ [next_pos], set (path @ [next_pos]), self\<lparr>score_cache := c\<rparr>))
           (dfs_ref tgt moves sc e next_pos (depth + 1) max_depth (path @ [next_pos]))
           c0 self (path @ [next_pos]) vs"
        using "3.IH"(1) [OF False par] ok by blast
      have ins: "insert next_pos (set path) = set (path @ [next_pos])" by simp
      show ?thesis
      proof (cases "dfs_ref tgt moves sc e next_pos (depth + 1) max_depth (path @ [next_pos])")
        case (Inl err)
        then show ?thesis using False sub
          by (simp add: dfs_loop.simps dfs_loop_ref.simps refines_def ins del: set_append)
      next
        case (Inr r)
        then obtain c' where
          run: "dfs e vs next_pos (depth + 1) max_depth
             (path @ [next_pos], set (path @ [next_pos]), self\<lparr>score_cache := c\<rparr>) =
             Inr (r, final_path r (path @ [next_pos]), set (final_path r (path @ [next_pos])),
                  self\<lparr>score_cache := c'\<rparr>)"
          and ok': "cache_extends c0 self vs c'"
          using sub by (auto simp: refines_def)
        show ?thesis
        proof (cases "truthy r")
          case True
          then have "final_path r (path @ [next_pos]) = final_path r path"
            by (auto simp: truthy_def final_path_def split: option.splits)
          then show ?thesis using False Inr run ok' True
            by (auto simp add: dfs_loop.simps dfs_loop_ref.simps refines_def ins
                simp del: set_append)
        next
          case nt: False
          then have fp: "final_path r (path @ [next_pos]) = path @ [next_pos]"
            by (auto simp: truthy_def final_path_def split: option.splits)
          have rest: "refines (dfs_loop e vs rest depth max_depth
                     (path, set path, self\<lparr>score_cache := c'\<rparr>))
              (dfs_loop_ref tgt moves sc e rest depth max_depth path) c0 self path vs"
            using "3.IH"(2) [OF False Inr nt par] ok' by blast
          have restore: "set (path @ [next_pos]) - {next_pos} = set path"
            using False by auto
          have mem: "next_pos \<in> set (path @ [next_pos])" by simp
          show ?thesis using False Inr run nt rest
            by (simp add: dfs_loop.simps dfs_loop_ref.simps ins fp restore mem del: set_append)
        qed
      qed
    qed
  qed
qed

section \<open>Properties of the reference search\<close>

lemma knight_walk_snoc:
  "knight_walk moves (path @ [n]) \<longleftrightarrow>
     knight_walk moves path \<and> (path \<noteq> [] \<longrightarrow> edge moves (last path) n)"
  by (induction moves path rule: knight_walk.induct) auto

lemma found_snoc:
  "found tgt moves sc e max_depth (path @ [n]) p \<Longrightarrow> found tgt moves sc e max_depth path p"
  by (auto simp: found_def)

lemma dfs_ref_sound:
  "dfs_ref tgt moves sc e pos depth max_depth path = Inr (Some p) \<Longrightarrow>
     path \<noteq> [] \<Longrightarrow> last path = pos \<Longrightarrow> distinct path \<Longrightarrow> knight_walk moves path \<Longrightarrow>
     int (length path) = depth + 1 \<Longrightarrow> found tgt moves sc e max_depth path p"
  "dfs_loop_ref tgt moves sc e nexts depth max_depth path = Inr (Some p) \<Longrightarrow>
     path \<noteq> [] \<Longrightarrow> distinct path \<Longrightarrow> knight_walk moves path \<Longrightarrow>
     (\<forall>n \<in> set nexts. edge moves (last path) n) \<Longrightarrow>
     int (length path) = depth + 1 \<Longrightarrow> found tgt moves sc e max_depth path p"
proof (induction tgt moves sc e pos depth max_depth path
    and tgt moves sc e nexts depth max_depth path rule: dfs_ref_dfs_loop_ref.induct)
  case (1 tgt moves sc e pos depth max_depth path)
  from "1.prems"(1) have d: "\<not> depth > max_depth"
    by (auto simp: dfs_ref.simps split: if_splits)
  from "1.prems"(1) d obtain s where s: "sc path = Inr s"
    by (auto simp: dfs_ref.simps split: sum.splits)
  show ?case
  proof (cases "pos = e")
    case True
    then have "p = path" "s = tgt"
      using "1.prems"(1) d s by (auto simp: dfs_ref.simps split: if_splits)
    then show ?thesis using "1.prems" True d s by (simp add: found_def)
  next
    case False
    then have le: "\<not> s > tgt"
      using "1.prems"(1) d s by (auto simp: dfs_ref.simps split: if_splits)
    then obtain nexts where n: "moves pos = Some nexts"
      using "1.prems"(1) d s False by (auto simp: dfs_ref.simps split: option.splits)
    then have run: "dfs_loop_ref tgt moves sc e nexts depth max_depth path = Inr (Some p)"
      using "1.prems"(1) d s False le by (simp add: dfs_ref.simps)
    have "\<forall>q \<in> set nexts. edge moves (last path) q"
      using n "1.prems"(3) by (simp add: edge_def)
    then show ?thesis
      using "1.IH" [OF d s False le n run] "1.prems" by simp
  qed
next
  case (2 tgt moves sc e depth max_depth path)
  then show ?case by (simp add: dfs_loop_ref.simps)
next
  case (3 tgt moves sc e next_pos rest depth max_depth path)
  have rest: "\<forall>n \<in> set rest. edge moves (last path) n" using "3.prems"(5) by simp
  show ?case
  proof (cases "next_pos \<in> set path")
    case True
    then have "dfs_loop_ref tgt moves sc e rest depth max_depth path = Inr (Some p)"
      using "3.prems"(1) by (simp add: dfs_loop_ref.simps)
    then show ?thesis using "3.IH"(3) True "3.prems" rest by simp
  next
    case False
    from "3.prems"(1) False obtain r where
      r: "dfs_ref tgt moves sc e next_pos (depth + 1) max_depth (path @ [next_pos]) = Inr r"
      by (auto simp: dfs_loop_ref.simps split: sum.splits)
    show ?thesis
    proof (cases "truthy r")
      case True
      then have "r = Some p" using "3.prems"(1) False r by (simp add: dfs_loop_ref.simps)
      then have "found tgt moves sc e max_depth (path @ [next_pos]) p"
        using "3.IH"(1) [OF False] r False "3.prems" by (simp add: knight_walk_snoc)
      then show ?thesis by (rule found_snoc)
    next
      case nt: False
      then have "dfs_loop_ref tgt moves sc e rest depth max_depth path = Inr (Some p)"
        using "3.prems"(1) False r by (simp add: dfs_loop_ref.simps)
      then show ?thesis using "3.IH"(2) [OF False r nt] "3.prems" rest by simp
    qed
  qed
qed

lemma dfs_ref_total:
  assumes sc: "\<And>p. p \<noteq> [] \<Longrightarrow> \<forall>q \<in> set p. in_grid q \<Longrightarrow> \<exists>s. sc p = Inr s"
    and mv: "\<And>q. in_grid q \<Longrightarrow> \<exists>ns. moves q = Some ns \<and> (\<forall>n \<in> set ns. in_grid n)"
  shows "path \<noteq> [] \<Longrightarrow> \<forall>q \<in> set path. in_grid q \<Longrightarrow> in_grid pos \<Longrightarrow>
           \<exists>r. dfs_ref tgt moves sc e pos depth max_depth path = Inr r"
    and "path \<noteq> [] \<Longrightarrow> \<forall>q \<in> set path. in_grid q \<Longrightarrow> \<forall>n \<in> set nexts. in_grid n \<Longrightarrow>
           \<exists>r. dfs_loop_ref tgt moves sc e nexts depth max_depth path = Inr r"
  using assms
proof (induction tgt moves sc e pos depth max_depth path
    and tgt moves sc e nexts depth max_depth path rule: dfs_ref_dfs_loop_ref.induct)
  case (1 tgt moves sc e pos depth max_depth path)
  note sc = "1.prems"(4) and mv = "1.prems"(5)
  show ?case
  proof (cases "depth > max_depth")
    case True
    then show ?thesis by (simp add: dfs_ref.simps)
  next
    case d: False
    obtain s where s: "sc path = Inr s" using sc [OF "1.prems"(1,2)] by blast
    obtain ns where ns: "moves pos = Some ns" "\<forall>n \<in> set ns. in_grid n"
      using mv [OF "1.prems"(3)] by blast
    show ?thesis
    proof (cases "pos \<noteq> e \<and> \<not> s > tgt")
      case True
      then have "\<exists>r. dfs_loop_ref tgt moves sc e ns depth max_depth path = Inr r"
        using "1.IH" [OF d s _ _ ns(1) "1.prems"(1,2) ns(2)] sc mv by blast
      then show ?thesis using d s True ns by (simp add: dfs_ref.simps)
    next
      case False
      then show ?thesis using d s by (auto simp: dfs_ref.simps)
    qed
  qed
next
  case (2 tgt moves sc e depth max_depth path)
  then show ?case by (simp add: dfs_loop_ref.simps)
next
  case (3 tgt moves sc e next_pos rest depth max_depth path)
  note sc = "3.prems"(4) and mv = "3.prems"(5)
  have rest: "\<forall>n \<in> set rest. in_grid n" and np: "in_grid next_pos"
    using "3.prems"(3) by simp_all
  show ?case
  proof (cases "next_pos \<in> set path")
    case True
    then show ?thesis
      using "3.IH"(3) [OF _ "3.prems"(1,2) rest] sc mv by (simp add: dfs_loop_ref.simps)
  next
    case False
    have "\<exists>r. dfs_ref tgt moves sc e next_pos (depth + 1) max_depth (path @ [next_pos]) = Inr r"
      using "3.IH"(1) [OF False] "3.prems"(2) np sc mv by simp
    then obtain r where
      r: "dfs_ref tgt moves sc e next_pos (depth + 1) max_depth (path @ [next_pos]) = Inr r"
      by blast
    show ?thesis
    proof (cases "truthy r")
      case True
      then show ?thesis using False r by (simp add: dfs_loop_ref.simps)
    next
      case nt: False
      have "\<exists>r. dfs_loop_ref tgt moves sc e rest depth max_depth path = Inr r"
        using "3.IH"(2) [OF False r nt "3.prems"(1,2) rest] sc mv by blast
      then show ?thesis using False r nt by (simp add: dfs_loop_ref.simps)
    qed
  qed
qed

section \<open>The iterative deepening of \<^verbatim>\<open>find_path\<close>\<close>

lemma in_grid_cases:
  assumes "in_grid p"
  obtains i j where "p = (i, j)" "i \<in> {0, 1, 2, 3, 4, 5}" "j \<in> {0, 1, 2, 3, 4, 5}"
proof -
  obtain i j where p: "p = (i, j)" by (cases p)
  have "i \<in> {0, 1, 2, 3, 4, 5}" "j \<in> {0, 1, 2, 3, 4, 5}"
    using assms p by (auto simp: in_grid_def)
  with p that show thesis by blast
qed

lemma cell_on_board:
  assumes "same_board self" "in_grid p"
  shows "cell self p \<in> {Inr ''A'', Inr ''B'', Inr ''C''}"
proof -
  from assms(2) obtain i j where p: "p = (i, j)"
    and i: "i \<in> {0, 1, 2, 3, 4, 5}" and j: "j \<in> {0, 1, 2, 3, 4, 5}"
    by (rule in_grid_cases)
  have g: "grid_values self = grid_values init" using assms(1) by (simp add: same_board_def)
  from i j show ?thesis
    unfolding p cell_def g by (auto simp: py_index_def init_def)
qed

lemma scorable_on_board:
  assumes "same_board self" "full_weights vs" "\<forall>q \<in> set p. in_grid q"
  shows "scorable self vs p"
  unfolding scorable_def list_all_iff
proof
  fix q assume "q \<in> set p"
  then have "cell self q \<in> {Inr ''A'', Inr ''B'', Inr ''C''}"
    using assms(1,3) cell_on_board by blast
  then show "case cell self q of Inl e \<Rightarrow> False | Inr c \<Rightarrow> vs c \<noteq> None"
    using assms(2) by (auto simp: full_weights_def)
qed

lemma cached_score_on_board:
  assumes "same_board self" "full_weights vs" "p \<noteq> []" "\<forall>q \<in> set p. in_grid q"
  shows "\<exists>s. cached_score c0 self vs p = Inr s"
  using compute_score_early [OF scorable_on_board [OF assms(1,2,4)] assms(3)]
  by (simp add: cached_score_def split: option.splits)

lemma moves_on_board:
  assumes "same_board self" "in_grid q"
  shows "\<exists>ns. knight_moves self q = Some ns \<and> (\<forall>n \<in> set ns. in_grid n)"
  using assms
  by (auto simp: same_board_def init_def precompute_knight_moves_apply dest: valid_from_in_grid)

lemma find_path_rounds_refines:
  "cache_extends c0 self vs c \<Longrightarrow>
     (case find_path_rounds_ref (target self) (knight_moves self) (cached_score c0 self vs)
             start e mds of
        Inl er \<Rightarrow> find_path_rounds (self\<lparr>score_cache := c\<rparr>) start e vs mds = Inl er
      | Inr r \<Rightarrow>
          (\<exists>c'. find_path_rounds (self\<lparr>score_cache := c\<rparr>) start e vs mds =
                   Inr (r, self\<lparr>score_cache := c'\<rparr>) \<and>
                cache_extends c0 self vs c'))"
proof (induction mds arbitrary: c)
  case Nil
  then show ?case by auto
next
  case (Cons md mds)
  let ?ref = "dfs_ref (target self) (knight_moves self) (cached_score c0 self vs) e start 0 md
                [start]"
  have sub: "refines (dfs e vs start 0 md ([start], set [start], self\<lparr>score_cache := c\<rparr>))
               ?ref c0 self [start] vs"
    using dfs_refines_ref(1) [OF refl refl refl] Cons.prems by blast
  show ?case
  proof (cases ?ref)
    case (Inl er)
    then show ?thesis using sub by (simp add: refines_def)
  next
    case (Inr r)
    then obtain c' where
      run: "dfs e vs start 0 md ([start], {start}, self\<lparr>score_cache := c\<rparr>) =
              Inr (r, final_path r [start], set (final_path r [start]),
                   self\<lparr>score_cache := c'\<rparr>)"
      and ok: "cache_extends c0 self vs c'"
      using sub by (auto simp: refines_def)
    show ?thesis
    proof (cases "truthy r")
      case True
      then show ?thesis using Inr run ok by auto
    next
      case False
      then show ?thesis using Inr run Cons.IH [OF ok] by (simp split: sum.splits)
    qed
  qed
qed

lemma find_path_rounds_ref_sound:
  "find_path_rounds_ref tgt moves sc start e mds = Inr (Some p) \<Longrightarrow>
     \<exists>md \<in> set mds. found tgt moves sc e md [start] p"
proof (induction mds)
  case Nil
  then show ?case by simp
next
  case (Cons md mds)
  from Cons.prems obtain r where
    r: "dfs_ref tgt moves sc e start 0 md [start] = Inr r"
    by (auto split: sum.splits)
  show ?case
  proof (cases "truthy r")
    case True
    then have "dfs_ref tgt moves sc e start 0 md [start] = Inr (Some p)"
      using Cons.prems r by simp
    from dfs_ref_sound(1) [OF this] show ?thesis by simp
  next
    case False
    then show ?thesis using Cons r by simp
  qed
qed


lemma find_path_rounds_ref_total:
  assumes "\<And>p. p \<noteq> [] \<Longrightarrow> \<forall>q \<in> set p. in_grid q \<Longrightarrow> \<exists>s. sc p = Inr s"
    and "\<And>q. in_grid q \<Longrightarrow> \<exists>ns. moves q = Some ns \<and> (\<forall>n \<in> set ns. in_grid n)"
    and "in_grid start"
  shows "\<exists>r. find_path_rounds_ref tgt moves sc start e mds = Inr r"
proof (induction mds)
  case Nil
  then show ?case by simp
next
  case (Cons md mds)
  have "\<exists>r. dfs_ref tgt moves sc e start 0 md [start] = Inr r"
    using dfs_ref_total(1) [of sc moves "[start]" start tgt e 0 md] assms by simp
  then show ?case using Cons by auto
qed

text \<open>The result of the rounds: the first round that yields a path.\<close>

lemma find_path_rounds_ref_first:
  "find_path_rounds_ref tgt moves sc start e mds = Inr r \<Longrightarrow>
     (r = None \<and> (\<forall>md \<in> set mds. \<exists>r'. dfs_ref tgt moves sc e start 0 md [start] = Inr r' \<and> \<not> truthy r')) \<or>
     (truthy r \<and> (\<exists>pre md post. mds = pre @ md # post \<and>
         dfs_ref tgt moves sc e start 0 md [start] = Inr r \<and>
         (\<forall>m \<in> set pre. \<exists>r'. dfs_ref tgt moves sc e start 0 m [start] = Inr r' \<and> \<not> truthy r')))"
proof (induction mds)
  case Nil
  then show ?case by simp
next
  case (Cons md mds)
  from Cons.prems obtain r0 where
    r0: "dfs_ref tgt moves sc e start 0 md [start] = Inr r0"
    by (auto split: sum.splits)
  show ?case
  proof (cases "truthy r0")
    case True
    then have "r = r0" using Cons.prems r0 by simp
    then have "md # mds = [] @ md # mds \<and>
         dfs_ref tgt moves sc e start 0 md [start] = Inr r \<and>
         (\<forall>m \<in> set []. \<exists>r'. dfs_ref tgt moves sc e start 0 m [start] = Inr r' \<and> \<not> truthy r')"
      using r0 by simp
    then show ?thesis using True \<open>r = r0\<close> by blast
  next
    case False
    then have "find_path_rounds_ref tgt moves sc start e mds = Inr r"
      using Cons.prems r0 by simp
    from Cons.IH [OF this] show ?thesis
    proof
      assume "r = None \<and> (\<forall>md \<in> set mds. \<exists>r'. dfs_ref tgt moves sc e start 0 md [start] = Inr r' \<and> \<not> truthy r')"
      then show ?thesis using r0 False by auto
    next
      assume "truthy r \<and> (\<exists>pre md post. mds = pre @ md # post \<and>
         dfs_ref tgt moves sc e start 0 md [start] = Inr r \<and>
         (\<forall>m \<in> set pre. \<exists>r'. dfs_ref tgt moves sc e start 0 m [start] = Inr r' \<and> \<not> truthy r'))"
      then obtain pre md' post where t: "truthy r" and m: "mds = pre @ md' # post"
        and d: "dfs_ref tgt moves sc e start 0 md' [start] = Inr r"
        and p: "\<forall>m \<in> set pre. \<exists>r'. dfs_ref tgt moves sc e start 0 m [start] = Inr r' \<and> \<not> truthy r'"
        by blast
      have "md # mds = (md # pre) @ md' # post" using m by simp
      moreover have "\<forall>m \<in> set (md # pre). \<exists>r'. dfs_ref tgt moves sc e start 0 m [start] = Inr r' \<and> \<not> truthy r'"
        using p r0 False by simp
      ultimately show ?thesis using t d by blast
    qed
  qed
qed

section \<open>What a returned path satisfies\<close>

text \<open>
  A score within the target was computed without the early exit, so the loop read every
  cell of the path and the score is the exact fold.
\<close>

lemma score_loop_reads:
  "score_loop self path vs (int i) s0 = Inr s \<Longrightarrow> s \<le> target self \<Longrightarrow> 0 < i \<Longrightarrow>
     \<forall>j. i \<le> j \<and> j < length path \<longrightarrow>
       (case cell self (path ! j) of Inl e \<Rightarrow> False | Inr c \<Rightarrow> vs c \<noteq> None)"
proof (induction "length path - i" arbitrary: i s0)
  case 0
  then have "length path \<le> i" by simp
  then show ?case by auto
next
  case (Suc n)
  then have lt: "i < length path" and lt1: "i - 1 < length path" by simp_all
  have i1: "int i - 1 = int (i - 1)" using Suc.prems(3) by simp
  have unfold: "score_loop self path vs (int i) s0 =
      (case cell self (path ! i) of
         Inl e \<Rightarrow> Inl e
       | Inr curr_val \<Rightarrow>
      (case cell self (path ! (i - 1)) of
         Inl e \<Rightarrow> Inl e
       | Inr prev_val \<Rightarrow>
      (case vs curr_val of
         None \<Rightarrow> Inl KeyError
       | Some curr_num \<Rightarrow>
           (let score' = (if curr_val = prev_val then s0 + curr_num else s0 * curr_num)
            in if score' > target self then Inr score'
               else score_loop self path vs (int i + 1) score'))))"
    apply (subst score_loop.simps)
    unfolding i1 py_index_nat [OF lt] py_index_nat [OF lt1] sum.case
    using lt by simp
  from Suc.prems(1) obtain c where c: "cell self (path ! i) = Inr c"
    unfolding unfold by (cases "cell self (path ! i)") simp_all
  from Suc.prems(1) obtain c' where c': "cell self (path ! (i - 1)) = Inr c'"
    unfolding unfold c by (cases "cell self (path ! (i - 1))") simp_all
  from Suc.prems(1) obtain w where w: "vs c = Some w"
    unfolding unfold c c' by (cases "vs c") simp_all
  define s1 where "s1 = (if c = c' then s0 + w else s0 * w)"
  have run: "(if s1 > target self then Inr s1
              else score_loop self path vs (int i + 1) s1) = Inr s"
    using Suc.prems(1) w unfolding unfold c c' s1_def by (simp add: Let_def)
  have "\<not> s1 > target self"
  proof
    assume "s1 > target self"
    then have "s = s1" using run by simp
    then show False using \<open>s1 > target self\<close> Suc.prems(2) by simp
  qed
  then have "score_loop self path vs (int (Suc i)) s1 = Inr s"
    using run by (simp add: add.commute)
  then have later: "\<forall>j. Suc i \<le> j \<and> j < length path \<longrightarrow>
       (case cell self (path ! j) of Inl e \<Rightarrow> False | Inr c \<Rightarrow> vs c \<noteq> None)"
    using Suc.hyps(1) [of "Suc i" s1] Suc.hyps(2) Suc.prems(2) by simp
  show ?case
  proof (intro allI impI)
    fix j assume j: "i \<le> j \<and> j < length path"
    show "case cell self (path ! j) of Inl e \<Rightarrow> False | Inr c \<Rightarrow> vs c \<noteq> None"
    proof (cases "j = i")
      case True
      then show ?thesis using c w by simp
    next
      case False
      then have "Suc i \<le> j \<and> j < length path" using j by simp
      then show ?thesis using later by blast
    qed
  qed
qed

lemma compute_score_within_target:
  assumes "compute_score self p vs = Inr s" "s \<le> target self"
  shows "p \<noteq> [] \<and> scorable self vs p \<and> s = score_exact (class_of self) (weight_of vs) p"
proof -
  have ne: "p \<noteq> []" using assms(1) by (auto simp: compute_score_def py_index_def)
  then have l: "0 < length p" by simp
  from assms(1) obtain c w where
    c: "cell self (p ! 0) = Inr c" and w: "vs c = Some w"
    and run: "score_loop self p vs (int 1) w = Inr s"
    using py_index_nat [OF l]
    by (auto simp: compute_score_def split: sum.splits option.splits)
  have "\<forall>j. 1 \<le> j \<and> j < length p \<longrightarrow>
       (case cell self (p ! j) of Inl e \<Rightarrow> False | Inr c \<Rightarrow> vs c \<noteq> None)"
    using score_loop_reads [OF run assms(2)] by simp
  then have "\<forall>j < length p. (case cell self (p ! j) of Inl e \<Rightarrow> False | Inr c \<Rightarrow> vs c \<noteq> None)"
  proof (intro allI impI)
    fix j assume a: "\<forall>j. 1 \<le> j \<and> j < length p \<longrightarrow>
       (case cell self (p ! j) of Inl e \<Rightarrow> False | Inr c \<Rightarrow> vs c \<noteq> None)"
      and j: "j < length p"
    show "case cell self (p ! j) of Inl e \<Rightarrow> False | Inr c \<Rightarrow> vs c \<noteq> None"
    proof (cases "j = 0")
      case True
      then show ?thesis using c w by simp
    next
      case False
      then have "1 \<le> j \<and> j < length p" using j by simp
      then show ?thesis using a by blast
    qed
  qed
  then have sc: "scorable self vs p" by (simp add: scorable_def list_all_length)
  have e: "s = score_early (target self) (class_of self) (weight_of vs) p"
    using compute_score_early [OF sc ne] assms(1) by simp
  obtain q qs where q: "p = q # qs" using ne by (cases p) auto
  have "fold_early (target self) (class_of self) (weight_of vs) q
          (weight_of vs (class_of self q)) qs \<le> target self"
    using e assms(2) q by (simp add: score_early_def)
  from fold_early_le_exact [OF this] e q
  have "s = score_exact (class_of self) (weight_of vs) p"
    by (simp add: score_early_def score_exact_def)
  with ne sc show ?thesis by simp
qed

lemma find_path_found:
  assumes "find_path self start e vs = Inr (Some p, self')"
  shows "(\<exists>md \<in> {4..11}. found (target self) (knight_moves self)
            (cached_score (score_cache self) self vs) e md [start] p) \<and>
         (\<exists>c'. self' = self\<lparr>score_cache := c'\<rparr> \<and>
               cache_extends (score_cache self) self vs c')"
proof -
  let ?ref = "find_path_rounds_ref (target self) (knight_moves self)
                (cached_score (score_cache self) self vs) start e [4..11]"
  have rf: "case ?ref of
        Inl er \<Rightarrow> find_path_rounds (self\<lparr>score_cache := score_cache self\<rparr>) start e vs [4..11]
                    = Inl er
      | Inr r \<Rightarrow>
          (\<exists>c'. find_path_rounds (self\<lparr>score_cache := score_cache self\<rparr>) start e vs [4..11] =
                   Inr (r, self\<lparr>score_cache := c'\<rparr>) \<and>
                cache_extends (score_cache self) self vs c')"
    by (rule find_path_rounds_refines) simp
  have fp: "find_path_rounds self start e vs [4..11] = Inr (Some p, self')"
    using assms by (simp add: find_path_def py_range_def)
  show ?thesis
  proof (cases ?ref)
    case (Inl er)
    then show ?thesis using rf fp by simp
  next
    case (Inr r)
    then obtain c' where "Inr (Some p, self') = Inr (r, self\<lparr>score_cache := c'\<rparr>)"
      and ok: "cache_extends (score_cache self) self vs c'"
      using rf fp by auto
    then have r: "r = Some p" and s: "self' = self\<lparr>score_cache := c'\<rparr>" by simp_all
    from find_path_rounds_ref_sound [OF Inr [unfolded r]]
    have "\<exists>md \<in> {4..11}. found (target self) (knight_moves self)
            (cached_score (score_cache self) self vs) e md [start] p"
      unfolding set_upto .
    then show ?thesis using s ok by blast
  qed
qed

lemma found_from_start:
  assumes "found tgt moves sc e md [start] p"
  shows "p \<noteq> [] \<and> hd p = start \<and> last p = e \<and> distinct p \<and> knight_walk moves p \<and>
         int (length p) \<le> md + 1 \<and> sc p = Inr tgt"
  using assms by (auto simp: found_def)

text \<open>
  Claim C1. When \<^verbatim>\<open>find_path\<close>, called with an empty cache, returns a path, the path
  begins at \<open>start\<close>, ends at \<open>end\<close>, repeats no position, has every consecutive pair
  of positions an edge of the solver's knight-move table, and its exact score under the
  weights is the solver's target (2024 for the solver the constructor builds). This
  holds for every start, end and weight assignment.
\<close>

theorem find_path_sound:
  assumes "score_cache self = Map.empty"
    and "find_path self start e vs = Inr (Some p, self')"
  shows "p \<noteq> [] \<and> hd p = start \<and> last p = e \<and> distinct p \<and>
         knight_walk (knight_moves self) p \<and>
         score_exact (class_of self) (weight_of vs) p = target self"
proof -
  from find_path_found [OF assms(2)] obtain md where
    "found (target self) (knight_moves self) (cached_score Map.empty self vs) e md [start] p"
    using assms(1) by auto
  from found_from_start [OF this]
  have st: "p \<noteq> [] \<and> hd p = start \<and> last p = e \<and> distinct p \<and>
         knight_walk (knight_moves self) p"
    and sc: "compute_score self p vs = Inr (target self)"
    by simp_all
  from compute_score_within_target [OF sc] st show ?thesis by simp
qed

theorem find_path_sound_witness:
  "score_cache init = Map.empty \<and>
   (\<exists>s. find_path init (0, 0) (1, 2) (weights_of 2024 1 1) = Inr (Some [(0, 0), (1, 2)], s)) \<and>
   distinct [(0, 0), (1, 2::int)] \<and>
   knight_walk (knight_moves init) [(0, 0), (1, 2)] \<and>
   score_exact (class_of init) (weight_of (weights_of 2024 1 1)) [(0, 0), (1, 2)] = 2024"
proof -
  have a: "score_cache init = Map.empty" by (simp add: init_def)
  have "\<exists>s. find_path init (0, 0) (1, 2) (weights_of 2024 1 1) = Inr (Some [(0, 0), (1, 2)], s)"
    by (simp add: find_path_def py_range_def init_def weights_of_def calculate_score_def
        compute_score_def py_index_def cell_def truthy_def precompute_knight_moves_apply
        in_grid_def knight_deltas_def Let_def dfs.simps dfs_loop.simps score_loop.simps)
  then obtain s where
    b: "find_path init (0, 0) (1, 2) (weights_of 2024 1 1) = Inr (Some [(0, 0), (1, 2)], s)"
    by blast
  have "target init = 2024" by (simp add: init_def)
  with find_path_sound [OF a b] a b show ?thesis by auto
qed

text \<open>
  Claim C10. A path returned by \<^verbatim>\<open>find_path\<close> has \<open>end\<close> as its last position and
  nowhere else, so it holds \<open>end\<close> exactly once: at a position equal to \<open>end\<close> the search
  scores the path and returns, with the path when the score is the target and with
  nothing otherwise, and never enters the loop over the neighbours. This holds whatever
  the cache holds, and also when \<open>start\<close> is \<open>end\<close>.
\<close>

theorem find_path_end_once:
  assumes "find_path self start e vs = Inr (Some p, self')"
  shows "p \<noteq> [] \<and> last p = e \<and> e \<notin> set (butlast p) \<and> count_list p e = 1 \<and>
         (\<forall>depth max_depth path visited s.
            dfs e vs e depth max_depth (path, visited, s) =
              (if depth > max_depth then Inr (None, path, visited, s)
               else case calculate_score s path vs of
                      Inl er \<Rightarrow> Inl er
                    | Inr (score, s1) \<Rightarrow>
                        if score = target s1 then Inr (Some path, path, visited, s1)
                        else Inr (None, path, visited, s1)))"
proof -
  from find_path_found [OF assms] obtain md where
    "found (target self) (knight_moves self) (cached_score (score_cache self) self vs)
       e md [start] p"
    by auto
  from found_from_start [OF this]
  have ne: "p \<noteq> []" and l: "last p = e" and d: "distinct p" by simp_all
  obtain q where p: "p = q @ [e]"
    using ne l by (metis append_butlast_last_id)
  have nb: "e \<notin> set (butlast p)" using d unfolding p by simp
  have c: "count_list p e = 1"
    using nb unfolding p by (simp add: count_list_0_iff)
  have "\<And>depth max_depth path visited s.
            dfs e vs e depth max_depth (path, visited, s) =
              (if depth > max_depth then Inr (None, path, visited, s)
               else case calculate_score s path vs of
                      Inl er \<Rightarrow> Inl er
                    | Inr (score, s1) \<Rightarrow>
                        if score = target s1 then Inr (Some path, path, visited, s1)
                        else Inr (None, path, visited, s1))"
    by (simp add: dfs.simps)
  with ne l nb c show ?thesis by blast
qed

theorem find_path_end_once_witness:
  "(\<exists>s. find_path init (0, 0) (1, 2) (weights_of 2024 1 1) = Inr (Some [(0, 0), (1, 2)], s)) \<and>
   (0, 0) \<noteq> (1, 2::int) \<and>
   last [(0, 0), (1, 2::int)] = (1, 2) \<and>
   (1, 2) \<notin> set (butlast [(0, 0), (1, 2::int)]) \<and>
   count_list [(0, 0), (1, 2::int)] (1, 2) = 1"
proof -
  have "\<exists>s. find_path init (0, 0) (1, 2) (weights_of 2024 1 1) = Inr (Some [(0, 0), (1, 2)], s)"
    by (simp add: find_path_def py_range_def init_def weights_of_def calculate_score_def
        compute_score_def py_index_def cell_def truthy_def precompute_knight_moves_apply
        in_grid_def knight_deltas_def Let_def dfs.simps dfs_loop.simps score_loop.simps)
  then obtain s where
    b: "find_path init (0, 0) (1, 2) (weights_of 2024 1 1) = Inr (Some [(0, 0), (1, 2)], s)"
    by blast
  from find_path_end_once [OF b] b show ?thesis by auto
qed

section \<open>Iterative deepening\<close>

text \<open>
  On the constructor's board, from a start in the grid and with a weight for each label,
  a round of the search raises nothing and returns a non-empty path or nothing; and a
  round run by the source from the solver's state returns what the reference round
  returns.
\<close>

lemma round_total:
  assumes "same_board self" "in_grid start" "full_weights vs"
  shows "\<exists>r. dfs_ref (target self) (knight_moves self) (cached_score c0 self vs) e start 0 md
               [start] = Inr r \<and> (r = None \<or> truthy r)"
proof -
  have "\<exists>r. dfs_ref (target self) (knight_moves self) (cached_score c0 self vs) e start 0 md
               [start] = Inr r"
    using dfs_ref_total(1) [of "cached_score c0 self vs" "knight_moves self" "[start]" start]
      cached_score_on_board [OF assms(1,3)] moves_on_board [OF assms(1)] assms(2)
    by simp
  then obtain r where r: "dfs_ref (target self) (knight_moves self) (cached_score c0 self vs)
      e start 0 md [start] = Inr r" by blast
  have "r = None \<or> truthy r"
  proof (cases r)
    case None
    then show ?thesis by simp
  next
    case (Some p)
    from dfs_ref_sound(1) [OF r [unfolded Some]] have "p \<noteq> []"
      by (auto simp: found_def)
    then show ?thesis using Some by (simp add: truthy_def)
  qed
  with r show ?thesis by blast
qed

lemma round_run:
  assumes "dfs_ref (target self) (knight_moves self) (cached_score (score_cache self) self vs)
             e start 0 md [start] = Inr r"
  shows "(\<exists>st. dfs e vs start 0 md ([start], {start}, self) = Inr (x, st)) \<longleftrightarrow> x = r"
proof -
  have "\<forall>c. cache_extends (score_cache self) self vs c \<longrightarrow>
      refines (dfs e vs start 0 md ([start], set [start], self\<lparr>score_cache := c\<rparr>))
        (dfs_ref (target self) (knight_moves self) (cached_score (score_cache self) self vs)
           e start 0 md [start]) (score_cache self) self [start] vs"
    by (rule dfs_refines_ref(1) [OF refl refl refl])
  then have "refines
      (dfs e vs start 0 md ([start], set [start], self\<lparr>score_cache := score_cache self\<rparr>))
      (dfs_ref (target self) (knight_moves self) (cached_score (score_cache self) self vs)
         e start 0 md [start]) (score_cache self) self [start] vs"
    by (drule_tac x = "score_cache self" in spec) simp
  then obtain c' where "dfs e vs start 0 md ([start], {start}, self) =
      Inr (r, final_path r [start], set (final_path r [start]), self\<lparr>score_cache := c'\<rparr>)"
    using assms by (auto simp: refines_def)
  then show ?thesis by auto
qed


lemma sorted_split_before:
  fixes mds :: "int list"
  assumes "sorted_wrt (<) mds" "mds = pre @ md # post"
  shows "set pre = {m \<in> set mds. m < md}"
  using assms by (auto simp: sorted_wrt_append)

text \<open>
  Claim C7. \<^verbatim>\<open>find_path\<close> runs the rounds of maximum depth 4, 5, ..., 11 in this order,
  each a search from \<open>[start]\<close> with \<open>{start}\<close> visited. On the constructor's board, from
  a start in the grid and with a weight for each label, it raises nothing; it returns
  \<^verbatim>\<open>None\<close> exactly when every round of maximum depth 4 to 11 returns \<^verbatim>\<open>None\<close>; and a
  path it returns has at most 12 positions and is the result of the first round that
  returns a path.
\<close>

theorem find_path_iterative_deepening:
  assumes "same_board self" and "in_grid start" and "full_weights vs"
  shows "find_path self start e vs =
           find_path_rounds self start e vs [4, 5, 6, 7, 8, 9, 10, 11] \<and>
    (\<exists>r self'. find_path self start e vs = Inr (r, self') \<and>
       (r = None \<longleftrightarrow>
          (\<forall>md \<in> {4..11}. \<exists>st. dfs e vs start 0 md ([start], {start}, self) = Inr (None, st))) \<and>
       (\<forall>p. r = Some p \<longrightarrow> length p \<le> 12 \<and>
          (\<exists>md \<in> {4..11}.
              (\<exists>st. dfs e vs start 0 md ([start], {start}, self) = Inr (Some p, st)) \<and>
              (\<forall>m \<in> {4..<md}.
                 \<exists>st. dfs e vs start 0 m ([start], {start}, self) = Inr (None, st)))))"
proof -
  let ?tgt = "target self" and ?mv = "knight_moves self"
    and ?sc = "cached_score (score_cache self) self vs"
  let ?round = "\<lambda>md. dfs_ref ?tgt ?mv ?sc e start 0 md [start]"
  let ?run = "\<lambda>md x. \<exists>st. dfs e vs start 0 md ([start], {start}, self) = Inr (x, st)"
  have mds: "py_range 4 12 = [4, 5, 6, 7, 8, 9, 10, 11]"
    by (simp add: py_range_def upto.simps)
  have l: "[4..11::int] = [4, 5, 6, 7, 8, 9, 10, 11]"
    by (simp add: upto.simps)
  have set_mds: "set [4, 5, 6, 7, 8, 9, 10, 11::int] = {4..11}"
    unfolding l [symmetric] by (rule set_upto)
  have first: "find_path self start e vs =
           find_path_rounds self start e vs [4, 5, 6, 7, 8, 9, 10, 11]"
    by (simp add: find_path_def mds)
  have total: "\<And>md. \<exists>r. ?round md = Inr r \<and> (r = None \<or> truthy r)"
    by (rule round_total [OF assms])
  have run_iff: "\<And>md x r. ?round md = Inr r \<Longrightarrow> ?run md x \<longleftrightarrow> x = r"
    by (rule round_run)
  have run_none: "\<And>md. ?run md None \<longleftrightarrow> (\<exists>r'. ?round md = Inr r' \<and> \<not> truthy r')"
  proof -
    fix md
    obtain r where r: "?round md = Inr r" "r = None \<or> truthy r" using total by blast
    show "?run md None \<longleftrightarrow> (\<exists>r'. ?round md = Inr r' \<and> \<not> truthy r')"
      using run_iff [OF r(1), of None] r by (auto simp: truthy_def)
  qed
  have "\<exists>r. find_path_rounds_ref ?tgt ?mv ?sc start e [4, 5, 6, 7, 8, 9, 10, 11] = Inr r"
    by (rule find_path_rounds_ref_total
          [OF cached_score_on_board [OF assms(1,3)] moves_on_board [OF assms(1)] assms(2)])
  then obtain r where
    ref: "find_path_rounds_ref ?tgt ?mv ?sc start e [4, 5, 6, 7, 8, 9, 10, 11] = Inr r" ..
  have "case find_path_rounds_ref ?tgt ?mv ?sc start e [4, 5, 6, 7, 8, 9, 10, 11] of
        Inl er \<Rightarrow> find_path_rounds (self\<lparr>score_cache := score_cache self\<rparr>) start e vs
                    [4, 5, 6, 7, 8, 9, 10, 11] = Inl er
      | Inr r \<Rightarrow>
          (\<exists>c'. find_path_rounds (self\<lparr>score_cache := score_cache self\<rparr>) start e vs
                   [4, 5, 6, 7, 8, 9, 10, 11] = Inr (r, self\<lparr>score_cache := c'\<rparr>) \<and>
                cache_extends (score_cache self) self vs c')"
    by (rule find_path_rounds_refines) simp
  then obtain c' where
    res: "find_path self start e vs = Inr (r, self\<lparr>score_cache := c'\<rparr>)"
    using ref first by auto
  from find_path_rounds_ref_first [OF ref]
  have cases: "(r = None \<and> (\<forall>md \<in> {4..11}. \<exists>r'. ?round md = Inr r' \<and> \<not> truthy r')) \<or>
     (truthy r \<and> (\<exists>pre md post. [4, 5, 6, 7, 8, 9, 10, 11] = pre @ md # post \<and>
         ?round md = Inr r \<and>
         (\<forall>m \<in> set pre. \<exists>r'. ?round m = Inr r' \<and> \<not> truthy r')))"
    unfolding set_mds .
  have none_iff: "r = None \<longleftrightarrow> (\<forall>md \<in> {4..11}. ?run md None)"
  proof
    assume "r = None"
    then have "\<forall>md \<in> {4..11}. \<exists>r'. ?round md = Inr r' \<and> \<not> truthy r'"
      using cases by (auto simp: truthy_def)
    then show "\<forall>md \<in> {4..11}. ?run md None" using run_none by blast
  next
    assume a: "\<forall>md \<in> {4..11}. ?run md None"
    show "r = None"
    proof (rule ccontr)
      assume "r \<noteq> None"
      then obtain pre md post where t: "truthy r"
        and sp: "[4, 5, 6, 7, 8, 9, 10, 11] = pre @ md # post" and rd: "?round md = Inr r"
        using cases by blast
      have "md \<in> set [4, 5, 6, 7, 8, 9, 10, 11::int]" unfolding sp by simp
      then have "md \<in> {4..11}" unfolding set_mds .
      then have "?run md None" using a by blast
      then have "None = r" using run_iff [OF rd] by blast
      then show False using t by (simp add: truthy_def)
    qed
  qed
  have some: "\<forall>p. r = Some p \<longrightarrow> length p \<le> 12 \<and>
          (\<exists>md \<in> {4..11}. ?run md (Some p) \<and> (\<forall>m \<in> {4..<md}. ?run m None))"
  proof (intro allI impI)
    fix p assume p: "r = Some p"
    then have "r \<noteq> None" by simp
    with cases obtain pre md post where
      sp: "[4, 5, 6, 7, 8, 9, 10, 11] = pre @ md # post" and rd0: "?round md = Inr r"
      and before: "\<forall>m \<in> set pre. \<exists>r'. ?round m = Inr r' \<and> \<not> truthy r'"
      by blast
    have rd: "?round md = Inr (Some p)" using rd0 unfolding p .
    have "md \<in> set [4, 5, 6, 7, 8, 9, 10, 11::int]" unfolding sp by simp
    then have md: "md \<in> {4..11}" unfolding set_mds .
    have "set pre = {m \<in> set [4, 5, 6, 7, 8, 9, 10, 11::int]. m < md}"
      by (rule sorted_split_before [OF _ sp]) simp
    then have "set pre = {m \<in> {4..11}. m < md}"
      unfolding set_mds .
    also have "\<dots> = {4..<md}"
      using md by auto
    finally have pre: "set pre = {4..<md}" .
    have "found ?tgt ?mv ?sc e md [start] p"
      using dfs_ref_sound(1) [OF rd] by simp
    then have "int (length p) \<le> md + 1" by (simp add: found_def)
    then have len: "length p \<le> 12" using md by simp
    have "?run md (Some p)" using run_iff [OF rd] by blast
    moreover have "\<forall>m \<in> {4..<md}. ?run m None"
      using before run_none unfolding pre by blast
    ultimately show "length p \<le> 12 \<and>
          (\<exists>md \<in> {4..11}. ?run md (Some p) \<and> (\<forall>m \<in> {4..<md}. ?run m None))"
      using len md by blast
  qed
  show ?thesis
  proof (intro conjI exI)
    show "find_path self start e vs =
           find_path_rounds self start e vs [4, 5, 6, 7, 8, 9, 10, 11]"
      by (rule first)
    show "find_path self start e vs = Inr (r, self\<lparr>score_cache := c'\<rparr>)"
      by (rule res)
    show "r = None \<longleftrightarrow> (\<forall>md \<in> {4..11}. ?run md None)"
      by (rule none_iff)
    show "\<forall>p. r = Some p \<longrightarrow> length p \<le> 12 \<and>
          (\<exists>md \<in> {4..11}. ?run md (Some p) \<and> (\<forall>m \<in> {4..<md}. ?run m None))"
      by (rule some)
  qed
qed

theorem find_path_iterative_deepening_witness:
  "same_board init \<and> in_grid (0, 0) \<and> full_weights (weights_of 2024 1 1) \<and>
   full_weights (weights_of 3000 3000 3000) \<and>
   (\<exists>s. find_path init (0, 0) (1, 2) (weights_of 2024 1 1) = Inr (Some [(0, 0), (1, 2)], s)) \<and>
   (\<exists>s. find_path init (0, 0) (5, 5) (weights_of 3000 3000 3000) = Inr (None, s)) \<and>
   (\<exists>st. dfs (5, 5) (weights_of 3000 3000 3000) (0, 0) 0 11 ([(0, 0)], {(0, 0)}, init)
            = Inr (None, st))"
proof -
  have a: "same_board init" by (simp add: same_board_def)
  have b: "in_grid (0, 0)" by (simp add: in_grid_def)
  have c: "full_weights (weights_of 2024 1 1)" "full_weights (weights_of 3000 3000 3000)"
    by (simp_all add: full_weights_def weights_of_def)
  have d: "\<exists>s. find_path init (0, 0) (1, 2) (weights_of 2024 1 1) =
             Inr (Some [(0, 0), (1, 2)], s)"
    by (simp add: find_path_def py_range_def init_def weights_of_def calculate_score_def
        compute_score_def py_index_def cell_def truthy_def precompute_knight_moves_apply
        in_grid_def knight_deltas_def Let_def dfs.simps dfs_loop.simps score_loop.simps)
  have e: "\<exists>s. find_path init (0, 0) (5, 5) (weights_of 3000 3000 3000) = Inr (None, s)"
    by (simp add: find_path_def py_range_def init_def weights_of_def calculate_score_def
        compute_score_def py_index_def cell_def truthy_def precompute_knight_moves_apply
        in_grid_def knight_deltas_def Let_def dfs.simps dfs_loop.simps score_loop.simps)
  from find_path_iterative_deepening [OF a b c(2), of "(5, 5)"] obtain r s' where
    r: "find_path init (0, 0) (5, 5) (weights_of 3000 3000 3000) = Inr (r, s')"
    and n: "r = None \<longleftrightarrow>
       (\<forall>md \<in> {4..11}. \<exists>st. dfs (5, 5) (weights_of 3000 3000 3000) (0, 0) 0 md
           ([(0, 0)], {(0, 0)}, init) = Inr (None, st))"
    by blast
  from e r have "r = None" by auto
  with n have "\<forall>md \<in> {4..11}. \<exists>st. dfs (5, 5) (weights_of 3000 3000 3000) (0, 0) 0 md
           ([(0, 0)], {(0, 0)}, init) = Inr (None, st)"
    by (rule iffD1)
  then have f: "\<exists>st. dfs (5, 5) (weights_of 3000 3000 3000) (0, 0) 0 11
      ([(0, 0)], {(0, 0)}, init) = Inr (None, st)"
    by (rule bspec) simp
  from a b c d e f show ?thesis by (intro conjI)
qed

section \<open>The optimizer\<close>

subsection \<open>One triple\<close>

lemma same_board_cache [simp]: "same_board (self\<lparr>score_cache := c\<rparr>) = same_board self"
  by (simp add: same_board_def)

lemma full_weights_of [simp]: "full_weights (weights_of A B C)"
  by (simp add: full_weights_def weights_of_def)




lemma try_triple_cache_irrelevant [simp]:
  "try_triple (self\<lparr>score_cache := c\<rparr>) A B C = try_triple self A B C"
  by (simp add: try_triple_def)

lemma try_result_cache_irrelevant [simp]:
  "try_result (self\<lparr>score_cache := c\<rparr>) A B C = try_result self A B C"
  by (simp add: try_result_def)



subsection \<open>The invariant of the loops\<close>




subsection \<open>The loops run the body on the enumerated triples\<close>







subsection \<open>The enumerated triples\<close>


lemma set_py_range [simp]: "set (py_range a b) = {a..<b}"
  by (auto simp: py_range_def)

lemma sorted_py_range [simp]: "sorted (py_range a b)"
  by (simp add: py_range_def)




subsection \<open>The searches of a triple are the searches without a cache\<close>

lemma search_ref_cache_irrelevant [simp]:
  "search_ref (self\<lparr>score_cache := c\<rparr>) vs start e = search_ref self vs start e"
  by (simp add: search_ref_def)



subsection \<open>The result of the optimizer\<close>



end
